theory Spec2Isabelle
  imports Complex_Main "HOL-Library.AList" "HOL-Library.FSet" "HOL-Library.Multiset"
begin

section \<open>Python values used by the adaptive spider\<close>

text \<open>
  The exceptions the modelled code can raise.  A function that mutates an object and may
  raise returns \<open>Inl (e, s)\<close> with the object \<open>s\<close> as it is at the moment of the raise, so
  that what a caller that survives the exception sees afterwards is part of the model.
\<close>

datatype error = KeyError | ValueError | AssertionError | AttributeError | NetworkXError

text \<open>
  A score dictionary (form type \<open>\<mapsto>\<close> float) is an association list in insertion order.
  Floats are modelled by \<open>real\<close>: comparisons and \<open>max\<close> are exact on floats as well, sums
  and quotients are taken in exact arithmetic.
\<close>

type_synonym scores = "(string \<times> real) list"

section \<open>\<open>MaxScores\<close>: per-domain running maxima\<close>

record MaxScores =
  classes :: "string list"
  zero_scores :: scores
  scores :: "(string \<times> scores) list"

text \<open>\<open>{form_type: 0.0 for form_type in self.classes}\<close>\<close>

definition zero_dict :: "string list \<Rightarrow> scores" where
  "zero_dict cls = foldl (\<lambda>d k. AList.update k 0 d) [] cls"

text \<open>\<open>MaxScores.__init__\<close>; \<open>self.scores\<close> is an empty \<open>defaultdict\<close>.\<close>

definition MaxScores_init :: "string list \<Rightarrow> MaxScores" where
  "MaxScores_init cls = \<lparr>classes = cls, zero_scores = zero_dict cls, scores = []\<rparr>"

text \<open>
  The loop \<open>for k, v in scores.items(): cur_scores[k] = max(cur_scores[k], v)\<close>.
  Reading \<open>cur_scores[k]\<close> raises \<open>KeyError\<close> for a key that is not a class; the entries
  written before the raise stay written.
\<close>

fun update_loop :: "scores \<Rightarrow> scores \<Rightarrow> (error \<times> scores) + scores" where
  "update_loop cur [] = Inr cur"
| "update_loop cur ((k, v) # rest) =
     (case map_of cur k of
        None \<Rightarrow> Inl (KeyError, cur)
      | Some c \<Rightarrow> update_loop (AList.update k (max c v) cur) rest)"

text \<open>
  \<open>MaxScores.update\<close>.  \<open>self.scores[domain]\<close> on the \<open>defaultdict\<close> inserts a copy of
  the zero scores for a domain seen for the first time (also when the loop raises later).
\<close>

definition entry :: "MaxScores \<Rightarrow> string \<Rightarrow> scores" where
  "entry ms domain = (case map_of (scores ms) domain of None \<Rightarrow> zero_scores ms | Some c \<Rightarrow> c)"

definition update :: "MaxScores \<Rightarrow> string \<Rightarrow> scores \<Rightarrow> (error \<times> MaxScores) + MaxScores" where
  "update ms domain sc =
     (let cur_scores = entry ms domain
      in case update_loop cur_scores sc of
           Inl (e, cur') \<Rightarrow> Inl (e, ms\<lparr>scores := AList.update domain cur' (scores ms)\<rparr>)
         | Inr cur' \<Rightarrow> Inr (ms\<lparr>scores := AList.update domain cur' (scores ms)\<rparr>))"

text \<open>\<open>v[k] for v in self.scores.values()\<close>; \<open>v[k]\<close> raises \<open>KeyError\<close> on a missing key.\<close>

fun column :: "string \<Rightarrow> scores list \<Rightarrow> error + real list" where
  "column k [] = Inr []"
| "column k (v # vs) =
     (case map_of v k of
        None \<Rightarrow> Inl KeyError
      | Some x \<Rightarrow> (case column k vs of Inl e \<Rightarrow> Inl e | Inr xs \<Rightarrow> Inr (x # xs)))"

text \<open>The dict comprehension of \<open>MaxScores.sum\<close>, over \<open>self.classes\<close> in order.\<close>

fun sum_loop :: "scores list \<Rightarrow> string list \<Rightarrow> scores \<Rightarrow> error + scores" where
  "sum_loop vs [] acc = Inr acc"
| "sum_loop vs (k # ks) acc =
     (case column k vs of
        Inl e \<Rightarrow> Inl e
      | Inr xs \<Rightarrow> sum_loop vs ks (AList.update k (sum_list xs) acc))"

definition sum_ms :: "MaxScores \<Rightarrow> error + scores" where
  "sum_ms ms = sum_loop (map snd (scores ms)) (classes ms) []"

text \<open>\<open>MaxScores.__len__\<close>\<close>

definition len_ms :: "MaxScores \<Rightarrow> nat" where
  "len_ms ms = length (scores ms)"

text \<open>\<open>MaxScores.avg\<close>; the division is by \<open>len(self.scores)\<close>, which is not zero there.\<close>

definition avg :: "MaxScores \<Rightarrow> error + scores" where
  "avg ms =
     (if scores ms = [] then Inr (zero_scores ms)
      else case sum_ms ms of
             Inl e \<Rightarrow> Inl e
           | Inr s \<Rightarrow> Inr (map (\<lambda>(k, v). (k, v / real (length (scores ms)))) s))"

section \<open>The crawl graph: a \<open>networkx\<close> 1.x \<open>DiGraph\<close>\<close>

text \<open>
  Node ids are the values of \<open>itertools.count()\<close>.  The attribute dictionary of a node
  holds Python values of several types; a link is the raw link dictionary of the extractor.
\<close>

datatype val = PyNone | PyBool bool | PyStr string | PyInt int | PyScores scores

type_synonym attrs = "(string \<times> val) list"

type_synonym link = "(string \<times> string) list"

text \<open>
  \<open>node\<close> is \<open>G.node\<close>.  \<open>edge\<close> holds, for the edge \<open>(u, v)\<close>, the value of
  \<open>G.edge[u][v]['link']\<close>, the only edge attribute the spider ever sets.
\<close>

record DiGraph =
  node :: "(nat \<times> attrs) list"
  edge :: "((nat \<times> nat) \<times> link) list"

text \<open>\<open>d.update(**attr)\<close>\<close>

definition dict_update :: "('k \<times> 'v) list \<Rightarrow> ('k \<times> 'v) list \<Rightarrow> ('k \<times> 'v) list" where
  "dict_update d kvs = fold (\<lambda>(k, v). AList.update k v) kvs d"

text \<open>
  \<open>G.add_node(n, **attr)\<close>: a new node gets the attributes, an existing node has its
  attribute dictionary updated with them.
\<close>

definition add_node :: "DiGraph \<Rightarrow> nat \<Rightarrow> attrs \<Rightarrow> DiGraph" where
  "add_node g n attr =
     g\<lparr>node := AList.update n
            (dict_update (case map_of (node g) n of None \<Rightarrow> [] | Some d \<Rightarrow> d) attr) (node g)\<rparr>"

text \<open>\<open>G.add_edge(u, v, link=link)\<close>: both end points become nodes if they are not.\<close>

definition add_edge :: "DiGraph \<Rightarrow> nat \<Rightarrow> nat \<Rightarrow> link \<Rightarrow> DiGraph" where
  "add_edge g u v l =
     (let g1 = add_node g u []; g2 = add_node g1 v []
      in g2\<lparr>edge := AList.update (u, v) l (edge g2)\<rparr>)"

text \<open>The nodes of the graph: the \<open>n\<close> with \<open>n in G\<close>.\<close>

definition nodes :: "DiGraph \<Rightarrow> nat set" where
  "nodes g = dom (map_of (node g))"

definition in_edges :: "DiGraph \<Rightarrow> nat \<Rightarrow> ((nat \<times> nat) \<times> link) list" where
  "in_edges g n = filter (\<lambda>e. snd (fst e) = n) (edge g)"

text \<open>\<open>G.predecessors_iter(n)\<close> raises \<open>NetworkXError\<close> for an \<open>n\<close> that is not a node.\<close>

definition predecessors_iter :: "DiGraph \<Rightarrow> nat \<Rightarrow> error + nat list" where
  "predecessors_iter g n =
     (if map_of (node g) n = None then Inl NetworkXError
      else Inr (map (\<lambda>e. fst (fst e)) (in_edges g n)))"

text \<open>\<open>G.node[n][key]\<close>\<close>

definition node_attr :: "DiGraph \<Rightarrow> nat \<Rightarrow> string \<Rightarrow> error + val" where
  "node_attr g n key =
     (case map_of (node g) n of
        None \<Rightarrow> Inl KeyError
      | Some d \<Rightarrow> (case map_of d key of None \<Rightarrow> Inl KeyError | Some v \<Rightarrow> Inr v))"

text \<open>Python's truth value of an attribute.\<close>

fun truthy :: "val \<Rightarrow> bool" where
  "truthy PyNone = False"
| "truthy (PyBool b) = b"
| "truthy (PyStr s) = (s \<noteq> [])"
| "truthy (PyInt i) = (i \<noteq> 0)"
| "truthy (PyScores d) = (d \<noteq> [])"

section \<open>The spider's collaborators\<close>

text \<open>
  A link classifier, as far as the spider looks into it: \<open>coef_\<close> is \<open>None\<close> until the
  classifier is fitted.
\<close>

record clf =
  coef :: "real list option"

type_synonym vec = "real list"

text \<open>
  What the spider calls and this file does not define: \<open>available_form_types()\<close>,
  \<open>link_vectorizer.transform\<close>, \<open>clf.predict_proba(X)[..., 1]\<close> and \<open>clf.partial_fit\<close>
  (with \<open>classes=[False, True]\<close>).
\<close>

record env =
  available_form_types :: "string list"
  transform :: "link list \<Rightarrow> vec list"
  predict_proba :: "clf \<Rightarrow> vec list \<Rightarrow> real list"
  partial_fit :: "clf \<Rightarrow> vec list \<Rightarrow> bool list \<Rightarrow> clf"

text \<open>
  A response as the spider reads it: \<open>response.meta.get('node_id')\<close>, \<open>response.status\<close>,
  \<open>hasattr(response, 'text')\<close>, \<open>response.url\<close>, and the values of
  \<open>response_max_scores(response)\<close>, \<open>get_response_domain(response)\<close> and
  \<open>list(self.iter_link_dicts(response, domain))\<close>.
\<close>

record response =
  meta_node_id :: "nat option"
  status :: int
  has_text :: bool
  url :: string
  max_scores :: scores
  domain :: string
  link_dicts :: "link list"

text \<open>A request yielded by \<open>generate_out_nodes\<close>.\<close>

record request =
  req_url :: string
  req_node_id :: nat
  req_domain :: string

text \<open>
  Modelled from the spec: \<open>get_constant_scores\<close> of \<open>acrawler.score_pages\<close>, which is not
  among the sources; the observed scores of a failed response are "all-zero over every
  category".
\<close>

definition get_constant_scores :: "env \<Rightarrow> real \<Rightarrow> scores" where
  "get_constant_scores ev c = foldl (\<lambda>d k. AList.update k c d) [] (available_form_types ev)"

section \<open>\<open>AdaptiveSpider\<close>\<close>

text \<open>
  \<open>node_ids\<close> is the next value of \<open>itertools.count()\<close>; \<open>response_count\<close> is the counter
  of the base spider.
\<close>

record AdaptiveSpider =
  replay_N :: int
  G :: DiGraph
  node_ids :: nat
  replay_node_ids :: "nat fset"
  scores_recalculated_at :: int
  response_count :: int
  domain_scores :: MaxScores
  link_classifiers :: "(string \<times> clf) list"

text \<open>
  \<open>AdaptiveSpider.__init__\<close>.
  Modelled from the spec: \<open>score_links.get_classifier\<close> and the base spider are not among
  the sources; a new classifier is unfitted and no response has been counted.
\<close>

definition spider_init :: "env \<Rightarrow> int \<Rightarrow> AdaptiveSpider" where
  "spider_init ev n =
     \<lparr>replay_N = n,
      G = \<lparr>node = [], edge = []\<rparr>,
      node_ids = 0,
      replay_node_ids = {||},
      scores_recalculated_at = 0,
      response_count = 0,
      domain_scores = MaxScores_init (available_form_types ev),
      link_classifiers =
        foldl (\<lambda>d ft. AList.update ft \<lparr>coef = None\<rparr> d) [] (available_form_types ev)\<rparr>"

text \<open>
  Modelled from the spec: \<open>increase_response_count\<close> of the base spider, which is not
  among the sources, counts one more processed response.
\<close>

definition increase_response_count :: "AdaptiveSpider \<Rightarrow> AdaptiveSpider" where
  "increase_response_count sp = sp\<lparr>response_count := response_count sp + 1\<rparr>"

text \<open>\<open>AdaptiveSpider.update_response_node\<close>\<close>

definition update_response_node :: "env \<Rightarrow> AdaptiveSpider \<Rightarrow> response \<Rightarrow> AdaptiveSpider \<times> nat" where
  "update_response_node ev sp r =
     (let is_seed_url = (meta_node_id r = None);
          node_id = (case meta_node_id r of None \<Rightarrow> node_ids sp | Some n \<Rightarrow> n);
          sp1 = (if is_seed_url then sp\<lparr>node_ids := Suc (node_ids sp)\<rparr> else sp);
          ok = (status r = 200 \<and> has_text r);
          observed_scores = (if ok then max_scores r else get_constant_scores ev 0);
          sp2 = sp1\<lparr>G := add_node (G sp1) node_id
                   [(''url'', PyStr (url r)),
                    (''visited'', PyBool True),
                    (''ok'', PyBool ok),
                    (''scores'', PyScores observed_scores),
                    (''response_id'', PyInt (response_count sp1))]\<rparr>;
          sp3 = (if \<not> is_seed_url
                 then sp2\<lparr>replay_node_ids := finsert node_id (replay_node_ids sp2)\<rparr>
                 else sp2)
      in (sp3, node_id))"

text \<open>
  \<open>AdaptiveSpider.on_offdomain_request_dropped\<close>, given \<open>request.meta.get('node_id')\<close>;
  \<open>not node_id\<close> holds for \<open>None\<close> and for \<open>0\<close>.
\<close>

definition on_offdomain_request_dropped :: "env \<Rightarrow> AdaptiveSpider \<Rightarrow> nat option \<Rightarrow> AdaptiveSpider" where
  "on_offdomain_request_dropped ev sp node_id =
     (case node_id of
        None \<Rightarrow> sp
      | Some n \<Rightarrow>
          if n = 0 then sp
          else sp\<lparr>G := add_node (G sp) n
                     [(''visited'', PyBool True),
                      (''ok'', PyBool False),
                      (''scores'', PyScores (get_constant_scores ev 0)),
                      (''response_id'', PyInt (response_count sp))],
                  replay_node_ids := finsert n (replay_node_ids sp)\<rparr>)"

text \<open>
  \<open>AdaptiveSpider.update_domain_scores\<close>.  The call of the scheduler queue at its end
  touches nothing of the spider.  A true value that is not a dictionary gets as far as
  \<open>scores.items()\<close> in \<open>MaxScores.update\<close>, after the domain's entry has been created.
\<close>

definition update_domain_scores :: "AdaptiveSpider \<Rightarrow> response \<Rightarrow> nat \<Rightarrow> (error \<times> AdaptiveSpider) + AdaptiveSpider" where
  "update_domain_scores sp r node_id =
     (case node_attr (G sp) node_id ''scores'' of
        Inl e \<Rightarrow> Inl (e, sp)
      | Inr v \<Rightarrow>
          if \<not> truthy v then Inr sp
          else (case v of
                  PyScores d \<Rightarrow>
                    (case update (domain_scores sp) (domain r) d of
                       Inl (e, ms) \<Rightarrow> Inl (e, sp\<lparr>domain_scores := ms\<rparr>)
                     | Inr ms \<Rightarrow> Inr (sp\<lparr>domain_scores := ms\<rparr>))
                | _ \<Rightarrow>
                    Inl (AttributeError,
                         sp\<lparr>domain_scores := (domain_scores sp)
                              \<lparr>scores := AList.update (domain r)
                                 (entry (domain_scores sp) (domain r))
                                 (scores (domain_scores sp))\<rparr>\<rparr>)))"

text \<open>\<open>list(self._iter_incoming_link_dicts(node_id))\<close>\<close>

definition iter_incoming_link_dicts :: "DiGraph \<Rightarrow> nat \<Rightarrow> error + link list" where
  "iter_incoming_link_dicts g n =
     (case predecessors_iter g n of
        Inl e \<Rightarrow> Inl e
      | Inr ps \<Rightarrow> Inr (map snd (in_edges g n)))"

text \<open>\<open>AdaptiveSpider._get_y\<close>\<close>

definition get_y :: "DiGraph \<Rightarrow> nat \<Rightarrow> string \<Rightarrow> error + bool list" where
  "get_y g n form_type =
     (case node_attr g n ''scores'' of
        Inl e \<Rightarrow> Inl e
      | Inr v \<Rightarrow>
          (case v of
             PyScores d \<Rightarrow> Inr [(case map_of d form_type of None \<Rightarrow> 0 | Some x \<Rightarrow> x) \<ge> 0.5]
           | _ \<Rightarrow> Inl AttributeError))"

text \<open>
  The labels of node \<open>n\<close> for every form type: \<open>self._get_y(n, form_type) * m\<close> for
  \<open>form_type in self.link_classifiers\<close>.
\<close>

fun get_ys :: "DiGraph \<Rightarrow> nat \<Rightarrow> nat \<Rightarrow> string list \<Rightarrow> error + (string \<times> bool list) list" where
  "get_ys g n m [] = Inr []"
| "get_ys g n m (ft # fts) =
     (case get_y g n ft of
        Inl e \<Rightarrow> Inl e
      | Inr y \<Rightarrow>
          (case get_ys g n m fts of
             Inl e \<Rightarrow> Inl e
           | Inr ys \<Rightarrow> Inr ((ft, concat (replicate m y)) # ys)))"

text \<open>\<open>y_all[form_type].extend(...)\<close> for every form type.\<close>

definition extend_all :: "(string \<times> bool list) list \<Rightarrow> (string \<times> bool list) list \<Rightarrow> (string \<times> bool list) list" where
  "extend_all y_all ys = map (\<lambda>(ft, y). (ft, y @ (case map_of ys ft of None \<Rightarrow> [] | Some y' \<Rightarrow> y'))) y_all"

type_synonym batch = "link list \<times> (string \<times> bool list) list"

text \<open>The experience replay loop over the sampled \<open>past_node_ids\<close>.\<close>

fun replay_loop :: "DiGraph \<Rightarrow> string list \<Rightarrow> nat list \<Rightarrow> batch \<Rightarrow> error + batch" where
  "replay_loop g fts [] b = Inr b"
| "replay_loop g fts (i # ids) b =
     (case iter_incoming_link_dicts g i of
        Inl e \<Rightarrow> Inl e
      | Inr x \<Rightarrow>
          if x = [] then replay_loop g fts ids b
          else (case get_ys g i (length x) fts of
                  Inl e \<Rightarrow> Inl e
                | Inr ys \<Rightarrow> replay_loop g fts ids (fst b @ x, extend_all (snd b) ys)))"

text \<open>
  What \<open>random.sample(population, k)\<close> may return: \<open>k\<close> distinct members of the
  population.
\<close>

definition random_sample_ok :: "nat fset \<Rightarrow> int \<Rightarrow> nat list \<Rightarrow> bool" where
  "random_sample_ok population k smp \<longleftrightarrow>
     distinct smp \<and> fset_of_list smp |\<subseteq>| population \<and> int (length smp) = k"

text \<open>
  \<open>random.sample(population, k)\<close>, with the random choice made explicit: \<open>choice\<close> is
  the order in which the generator prefers the ids.  The members of the population that
  \<open>choice\<close> names come first, in its order, then the other members; the sample is the
  first \<open>k\<close> of them.  So the sample is drawn from the population as it is at the call,
  whatever \<open>choice\<close> is, and every sample the function can return is the value for some
  \<open>choice\<close> (the sample itself).  The function raises \<open>ValueError\<close> for a negative \<open>k\<close>
  and for a \<open>k\<close> larger than the population.
\<close>

definition random_sample :: "nat fset \<Rightarrow> int \<Rightarrow> nat list \<Rightarrow> error + nat list" where
  "random_sample population k choice =
     (if k < 0 \<or> int (fcard population) < k then Inl ValueError
      else Inr (take (nat k)
             (filter (\<lambda>i. i |\<in>| population) (remdups choice) @
              filter (\<lambda>i. i \<notin> set choice) (sorted_list_of_fset population))))"

text \<open>
  The first part of \<open>AdaptiveSpider.update_classifiers\<close>: the batch \<open>(X_raw, y_all)\<close> that
  goes to the classifiers, \<open>None\<close> when the method returns without training.  \<open>smp\<close> is
  the random choice of \<open>random.sample\<close>, should the method call it.
\<close>

definition training_batch :: "AdaptiveSpider \<Rightarrow> nat \<Rightarrow> nat list \<Rightarrow> error + batch option" where
  "training_batch sp node_id smp =
     (case node_attr (G sp) node_id ''visited'' of
        Inl e \<Rightarrow> Inl e
      | Inr visited \<Rightarrow>
          if \<not> truthy visited then Inl AssertionError
          else (case iter_incoming_link_dicts (G sp) node_id of
                  Inl e \<Rightarrow> Inl e
                | Inr X_raw \<Rightarrow>
                    if X_raw = [] then Inr None
                    else (case get_ys (G sp) node_id (length X_raw) (map fst (link_classifiers sp)) of
                            Inl e \<Rightarrow> Inl e
                          | Inr y_all \<Rightarrow>
                              if replay_N sp \<noteq> 0 \<and> replay_N sp < int (fcard (replay_node_ids sp))
                              then (case random_sample (replay_node_ids sp) (replay_N sp) smp of
                                      Inl e \<Rightarrow> Inl e
                                    | Inr past_node_ids \<Rightarrow>
                                        (case replay_loop (G sp) (map fst (link_classifiers sp))
                                                past_node_ids (X_raw, y_all) of
                                           Inl e \<Rightarrow> Inl e
                                         | Inr b \<Rightarrow> Inr (Some b)))
                              else Inr (Some (X_raw, y_all)))))"

text \<open>
  The last loop of \<open>update_classifiers\<close>: one \<open>partial_fit\<close> for every classifier, with
  \<open>y_all[form_type]\<close>.
\<close>

fun fit_all :: "env \<Rightarrow> vec list \<Rightarrow> (string \<times> bool list) list \<Rightarrow> (string \<times> clf) list \<Rightarrow>
    (error \<times> (string \<times> clf) list) + (string \<times> clf) list" where
  "fit_all ev X y_all [] = Inr []"
| "fit_all ev X y_all ((ft, c) # cls) =
     (case map_of y_all ft of
        None \<Rightarrow> Inl (KeyError, (ft, c) # cls)
      | Some y \<Rightarrow>
          (case fit_all ev X y_all cls of
             Inl (e, cls') \<Rightarrow> Inl (e, (ft, partial_fit ev c X y) # cls')
           | Inr cls' \<Rightarrow> Inr ((ft, partial_fit ev c X y) # cls')))"

text \<open>\<open>AdaptiveSpider.update_classifiers\<close>\<close>

definition update_classifiers :: "env \<Rightarrow> AdaptiveSpider \<Rightarrow> nat \<Rightarrow> nat list \<Rightarrow> (error \<times> AdaptiveSpider) + AdaptiveSpider" where
  "update_classifiers ev sp node_id smp =
     (case training_batch sp node_id smp of
        Inl e \<Rightarrow> Inl (e, sp)
      | Inr None \<Rightarrow> Inr sp
      | Inr (Some b) \<Rightarrow>
          (case fit_all ev (transform ev (fst b)) (snd b) (link_classifiers sp) of
             Inl (e, cls) \<Rightarrow> Inl (e, sp\<lparr>link_classifiers := cls\<rparr>)
           | Inr cls \<Rightarrow> Inr (sp\<lparr>link_classifiers := cls\<rparr>)))"

text \<open>
  \<open>for prob, score_dict in zip(probs, scores): score_dict[form_type] = prob\<close>; \<open>zip\<close>
  stops at the shorter list.
\<close>

fun assign_probs :: "string \<Rightarrow> real list \<Rightarrow> scores list \<Rightarrow> scores list" where
  "assign_probs ft (p # ps) (d # ds) = AList.update ft p d # assign_probs ft ps ds"
| "assign_probs ft ps ds = ds"

text \<open>\<open>AdaptiveSpider.get_link_scores\<close>\<close>

definition get_link_scores :: "env \<Rightarrow> AdaptiveSpider \<Rightarrow> link list \<Rightarrow> scores list" where
  "get_link_scores ev sp links =
     (if links = [] then []
      else let X = transform ev links
           in fold (\<lambda>(form_type, c) score_dicts.
                      assign_probs form_type
                        (if coef c = None then replicate (length links) 0.5
                         else predict_proba ev c X)
                        score_dicts)
                (link_classifiers sp) (replicate (length links) []))"

text \<open>
  The first loop of \<open>_recalculate_link_scores\<close> over the active node ids of the scheduler
  queue: the links and the ids of the nodes to update.
\<close>

fun collect_links :: "DiGraph \<Rightarrow> nat list \<Rightarrow> error + (link list \<times> nat list)" where
  "collect_links g [] = Inr ([], [])"
| "collect_links g (n # ns) =
     (case predecessors_iter g n of
        Inl e \<Rightarrow> Inl e
      | Inr ps \<Rightarrow>
          (case collect_links g ns of
             Inl e \<Rightarrow> Inl e
           | Inr r \<Rightarrow> Inr (map snd (in_edges g n) @ fst r, replicate (length ps) n @ snd r)))"

text \<open>
  \<open>AdaptiveSpider._recalculate_link_scores\<close>; \<open>active\<close> is what
  \<open>self.scheduler_queue.iter_active_node_ids()\<close> yields.  The result says whether
  \<open>self.scheduler_queue.recalculate_priorities()\<close> was called.
\<close>

definition recalculate_link_scores' :: "env \<Rightarrow> AdaptiveSpider \<Rightarrow> int option \<Rightarrow> nat list \<Rightarrow>
    (error \<times> AdaptiveSpider) + (AdaptiveSpider \<times> bool)" where
  "recalculate_link_scores' ev sp min_resp_count active =
     (if (case min_resp_count of
            None \<Rightarrow> False
          | Some m \<Rightarrow> response_count sp - scores_recalculated_at sp \<le> m)
      then Inr (sp, False)
      else (case collect_links (G sp) active of
              Inl e \<Rightarrow> Inl (e, sp)
            | Inr r \<Rightarrow>
                let link_scores = get_link_scores ev sp (fst r);
                    g = fold (\<lambda>(node_id, sc) g. add_node g node_id [(''predicted_scores'', PyScores sc)])
                          (zip (snd r) link_scores) (G sp)
                in Inr (sp\<lparr>G := g, scores_recalculated_at := response_count sp\<rparr>, True)))"

text \<open>\<open>AdaptiveSpider.recalculate_link_scores\<close>\<close>

definition recalculate_link_scores :: "env \<Rightarrow> AdaptiveSpider \<Rightarrow> nat list \<Rightarrow>
    (error \<times> AdaptiveSpider) + (AdaptiveSpider \<times> bool)" where
  "recalculate_link_scores ev sp active =
     recalculate_link_scores' ev sp (Some (max 500 (int (len_ms (domain_scores sp))))) active"

text \<open>
  \<open>AdaptiveSpider.generate_out_nodes\<close> is a generator.  Up to its loop it shuffles the
  links (\<open>links\<close> is the shuffled list) and scores them; each \<open>next\<close> then runs one
  iteration of the loop, up to the \<open>yield\<close>.  The construction of the \<open>scrapy.Request\<close>
  is taken to succeed; where it raises (a url without a scheme), the node and the edge
  have been added and the generator ends without a request.
\<close>

record generator =
  this_node_id :: nat
  gen_domain :: string
  todo :: "(link \<times> scores) list"

definition generate_out_nodes :: "env \<Rightarrow> AdaptiveSpider \<Rightarrow> response \<Rightarrow> nat \<Rightarrow> link list \<Rightarrow> generator" where
  "generate_out_nodes ev sp r n links =
     \<lparr>this_node_id = n, gen_domain = domain r, todo = zip links (get_link_scores ev sp links)\<rparr>"

definition generate_next :: "AdaptiveSpider \<Rightarrow> generator \<Rightarrow>
    (error \<times> AdaptiveSpider) + (AdaptiveSpider \<times> (generator \<times> request) option)" where
  "generate_next sp gen =
     (case todo gen of
        [] \<Rightarrow> Inr (sp, None)
      | (link, sc) # rest \<Rightarrow>
          (case map_of link ''url'' of
             None \<Rightarrow> Inl (KeyError, sp)
           | Some u \<Rightarrow>
               let node_id = node_ids sp;
                   sp1 = sp\<lparr>node_ids := Suc (node_ids sp)\<rparr>;
                   g1 = add_node (G sp1) node_id
                          [(''url'', PyStr u),
                           (''visited'', PyBool False),
                           (''ok'', PyNone),
                           (''scores'', PyNone),
                           (''response_id'', PyNone),
                           (''predicted_scores'', PyScores sc)];
                   g2 = add_edge g1 (this_node_id gen) node_id link
               in Inr (sp1\<lparr>G := g2\<rparr>,
                       Some (gen\<lparr>todo := rest\<rparr>,
                             \<lparr>req_url = u, req_node_id = node_id, req_domain = gen_domain gen\<rparr>))))"

text \<open>
  \<open>AdaptiveSpider.parse\<close> up to \<open>yield from\<close>: the result is the spider and the generator
  of the out nodes, \<open>None\<close> for a failed response.
\<close>

definition parse :: "env \<Rightarrow> AdaptiveSpider \<Rightarrow> response \<Rightarrow> nat list \<Rightarrow> link list \<Rightarrow>
    (error \<times> AdaptiveSpider) + (AdaptiveSpider \<times> generator option)" where
  "parse ev sp r smp links =
     (let sp1 = increase_response_count sp;
          (sp2, node_id) = update_response_node ev sp1 r
      in case update_domain_scores sp2 r node_id of
           Inl e \<Rightarrow> Inl e
         | Inr sp3 \<Rightarrow>
             (case update_classifiers ev sp3 node_id smp of
                Inl e \<Rightarrow> Inl e
              | Inr sp4 \<Rightarrow>
                  (case node_attr (G sp4) node_id ''ok'' of
                     Inl e \<Rightarrow> Inl (e, sp4)
                   | Inr ok \<Rightarrow>
                       if \<not> truthy ok then Inr (sp4, None)
                       else Inr (sp4, Some (generate_out_nodes ev sp4 r node_id links)))))"

section \<open>The crawl as a sequence of events\<close>

text \<open>
  The engine drives the spider from one thread: it calls \<open>parse\<close> with a response, it
  advances the generator a \<open>parse\<close> call returned by one request, it reports a request
  dropped as off-domain, and a looping call runs \<open>recalculate_link_scores\<close>.  These are
  the events; they interleave in any order.

  Besides the spider and the generators that are not exhausted, the world records which
  ids \<open>next(self.node_ids)\<close> has handed out, oldest first, and where: in
  \<open>update_response_node\<close>, for a seed response, or in \<open>generate_out_nodes\<close>, for the node
  of an extracted link.
\<close>

datatype alloc = Seed nat | Child nat

fun alloc_id :: "alloc \<Rightarrow> nat" where
  "alloc_id (Seed n) = n"
| "alloc_id (Child n) = n"

record world =
  spider :: AdaptiveSpider
  running :: "generator list"
  allocated :: "alloc list"

text \<open>
  \<open>Response r smp links\<close>: \<open>parse\<close> is called with \<open>r\<close>; \<open>smp\<close> is what \<open>random.sample\<close>
  returns if it is called and \<open>links\<close> is the list \<open>random.shuffle\<close> leaves.
  \<open>Next i\<close>: the \<open>i\<close>-th running generator is advanced.
  \<open>Dropped m\<close>: \<open>on_offdomain_request_dropped\<close> for a request with
  \<open>request.meta.get('node_id') = m\<close>.
  \<open>Rescore active\<close>: \<open>recalculate_link_scores\<close>, with the active node ids of the queue.
\<close>

datatype event =
    Response response "nat list" "link list"
  | Next nat
  | Dropped "nat option"
  | Rescore "nat list"

text \<open>
  The engine only hands over what the spider asked for: a response or a dropped request
  carries no node id (a seed) or the node id of a request the spider has yielded, and
  these are the ids allocated in \<open>generate_out_nodes\<close>.
\<close>

definition known_node_id :: "world \<Rightarrow> nat option \<Rightarrow> bool" where
  "known_node_id w m = (case m of None \<Rightarrow> True | Some n \<Rightarrow> Child n \<in> set (allocated w))"

text \<open>
  \<open>step ev w e\<close> is the world after event \<open>e\<close>, whether the spider's method returns or
  raises; it is \<open>None\<close> for an event that cannot happen in \<open>w\<close>: a node id the spider
  never issued, a list that is not a permutation of the extracted links, a sample that
  \<open>random.sample\<close> cannot return, a generator that does not exist.
\<close>

definition step :: "env \<Rightarrow> world \<Rightarrow> event \<Rightarrow> world option" where
  "step ev w e =
     (case e of
        Response r smp links \<Rightarrow>
          let sp2 = fst (update_response_node ev (increase_response_count (spider w)) r);
              hist = (case meta_node_id r of
                       None \<Rightarrow> allocated w @ [Seed (node_ids (spider w))]
                     | Some n \<Rightarrow> allocated w)
          in if \<not> known_node_id w (meta_node_id r) \<or> mset links \<noteq> mset (link_dicts r) \<or>
                (0 < replay_N sp2 \<and> replay_N sp2 < int (fcard (replay_node_ids sp2)) \<and>
                 \<not> random_sample_ok (replay_node_ids sp2) (replay_N sp2) smp)
             then None
             else (case parse ev (spider w) r smp links of
                     Inl (err, sp') \<Rightarrow> Some (w\<lparr>spider := sp', allocated := hist\<rparr>)
                   | Inr (sp', None) \<Rightarrow> Some (w\<lparr>spider := sp', allocated := hist\<rparr>)
                   | Inr (sp', Some gen) \<Rightarrow>
                       Some (w\<lparr>spider := sp', running := running w @ [gen], allocated := hist\<rparr>))
      | Next i \<Rightarrow>
          if length (running w) \<le> i then None
          else (case generate_next (spider w) (running w ! i) of
                  Inl (err, sp') \<Rightarrow>
                    Some (w\<lparr>spider := sp', running := take i (running w) @ drop (Suc i) (running w)\<rparr>)
                | Inr (sp', None) \<Rightarrow>
                    Some (w\<lparr>spider := sp', running := take i (running w) @ drop (Suc i) (running w)\<rparr>)
                | Inr (sp', Some (gen, req)) \<Rightarrow>
                    Some (w\<lparr>spider := sp', running := (running w)[i := gen],
                            allocated := allocated w @ [Child (req_node_id req)]\<rparr>))
      | Dropped m \<Rightarrow>
          if \<not> known_node_id w m then None
          else Some (w\<lparr>spider := on_offdomain_request_dropped ev (spider w) m\<rparr>)
      | Rescore active \<Rightarrow>
          (case recalculate_link_scores ev (spider w) active of
             Inl (err, sp') \<Rightarrow> Some (w\<lparr>spider := sp'\<rparr>)
           | Inr (sp', called) \<Rightarrow> Some (w\<lparr>spider := sp'\<rparr>)))"

fun run :: "env \<Rightarrow> world \<Rightarrow> event list \<Rightarrow> world option" where
  "run ev w [] = Some w"
| "run ev w (e # es) = (case step ev w e of None \<Rightarrow> None | Some w' \<Rightarrow> run ev w' es)"

definition world_init :: "env \<Rightarrow> int \<Rightarrow> world" where
  "world_init ev n = \<lparr>spider = spider_init ev n, running = [], allocated = []\<rparr>"

text \<open>The worlds a crawl with \<open>replay_N = n\<close> can be in.\<close>

definition reachable :: "env \<Rightarrow> int \<Rightarrow> world \<Rightarrow> bool" where
  "reachable ev n w \<longleftrightarrow> (\<exists>es. run ev (world_init ev n) es = Some w)"

section \<open>Example values\<close>

text \<open>
  Concrete collaborators for evaluating the model: two form types, a vectorizer and
  classifiers that answer with one value per link.
\<close>

definition ev_ex :: env where
  "ev_ex = \<lparr>available_form_types = [''a'', ''b''],
            transform = map (\<lambda>l. []),
            predict_proba = (\<lambda>c X. map (\<lambda>x. 7 / 10) X),
            partial_fit = (\<lambda>c X y. c\<lparr>coef := Some []\<rparr>)\<rparr>"

definition link_ex :: "string \<Rightarrow> link" where
  "link_ex u = [(''url'', u)]"

text \<open>
  A seed response with two links, the response to the request for node \<open>n\<close>, and a failed
  response to that request.
\<close>

definition r0_ex :: response where
  "r0_ex = \<lparr>meta_node_id = None, status = 200, has_text = True, url = ''http://d/'',
            max_scores = [(''a'', 0.9), (''b'', 0.1)], domain = ''d'',
            link_dicts = [link_ex ''http://d/1'', link_ex ''http://d/2'']\<rparr>"

definition r_child :: "nat \<Rightarrow> response" where
  "r_child n = \<lparr>meta_node_id = Some n, status = 200, has_text = True, url = ''http://d/c'',
            max_scores = [(''a'', 0.2), (''b'', 0.6)], domain = ''d'',
            link_dicts = []\<rparr>"

definition r_failed :: "nat \<Rightarrow> response" where
  "r_failed n = \<lparr>meta_node_id = Some n, status = 404, has_text = True, url = ''http://d/c'',
            max_scores = [], domain = ''d'', link_dicts = []\<rparr>"

text \<open>
  A crawl with \<open>replay_N = 1\<close>: the seed response arrives and its generator is advanced
  twice.  \<open>w_ex\<close> is the world then: the seed \<open>0\<close> with the pending nodes \<open>1\<close> and \<open>2\<close>.
\<close>

definition es_ex :: "event list" where
  "es_ex = [Response r0_ex [] [link_ex ''http://d/1'', link_ex ''http://d/2''], Next 0, Next 0]"

definition w_ex :: world where
  "w_ex = \<lparr>spider =
     \<lparr>replay_N = 1,
        G = \<lparr>node =
               [(0, [(''url'', PyStr ''http://d/''),
                     (''visited'', PyBool True), (''ok'', PyBool True),
                     (''scores'', PyScores [(''a'', 9 / 10), (''b'', 1 / 10)]),
                     (''response_id'', PyInt 1)]),
                (1, [(''url'', PyStr ''http://d/1''),
                     (''visited'', PyBool False), (''ok'', PyNone),
                     (''scores'', PyNone), (''response_id'', PyNone),
                     (''predicted_scores'', PyScores [(''a'', 1 / 2), (''b'', 1 / 2)])]),
                (2, [(''url'', PyStr ''http://d/2''),
                     (''visited'', PyBool False), (''ok'', PyNone),
                     (''scores'', PyNone), (''response_id'', PyNone),
                     (''predicted_scores'', PyScores [(''a'', 1 / 2), (''b'', 1 / 2)])])],
               edge =
                 [((0, 1), [(''url'', ''http://d/1'')]),
                  ((0, 2), [(''url'', ''http://d/2'')])]\<rparr>,
        node_ids = 3, replay_node_ids = {||},
        scores_recalculated_at = 0, response_count = 1,
        domain_scores =
          \<lparr>classes = [''a'', ''b''], zero_scores = [(''a'', 0), (''b'', 0)],
             scores = [(''d'', [(''a'', 9 / 10), (''b'', 1 / 10)])]\<rparr>,
        link_classifiers =
          [(''a'', \<lparr>coef = None\<rparr>), (''b'', \<lparr>coef = None\<rparr>)]\<rparr>,
     running = [\<lparr>this_node_id = 0, gen_domain = ''d'', todo = []\<rparr>],
     allocated = [Seed 0, Child 1, Child 2]\<rparr>"

text \<open>The spider after the response for node \<open>1\<close> has been parsed in \<open>w_ex\<close>.\<close>

definition sp_ex1 :: AdaptiveSpider where
  "sp_ex1 = (case parse ev_ex (spider w_ex) (r_child 1) [] [] of
               Inl (err, sp') \<Rightarrow> sp'
             | Inr (sp', gen) \<Rightarrow> sp')"

definition w_ex1 :: world where
  "w_ex1 = \<lparr>spider = sp_ex1,
            running = [\<lparr>this_node_id = 0, gen_domain = ''d'', todo = []\<rparr>,
                       \<lparr>this_node_id = 1, gen_domain = ''d'', todo = []\<rparr>],
            allocated = [Seed 0, Child 1, Child 2]\<rparr>"

text \<open>
  The spider after a re-scoring pass over the pending node \<open>2\<close>, run without a minimum
  response count, and the spider \<open>sp_ex1\<close> at a later response count.
\<close>

definition sp_ex2 :: AdaptiveSpider where
  "sp_ex2 = (case recalculate_link_scores' ev_ex sp_ex1 None [2] of
               Inl (err, sp') \<Rightarrow> sp'
             | Inr (sp', called) \<Rightarrow> sp')"

definition sp_ex600 :: AdaptiveSpider where
  "sp_ex600 = sp_ex1\<lparr>response_count := 600\<rparr>"

definition sp_ex601 :: AdaptiveSpider where
  "sp_ex601 = (case recalculate_link_scores ev_ex sp_ex600 [2] of
               Inl (err, sp') \<Rightarrow> sp'
             | Inr (sp', called) \<Rightarrow> sp')"

section \<open>The invariant of a crawl\<close>

text \<open>
  The part of the spider that the graph, the ids and the replay set depend on.
\<close>

definition core :: "AdaptiveSpider \<Rightarrow> DiGraph \<times> nat \<times> nat fset \<times> int \<times> string list" where
  "core sp = (G sp, node_ids sp, replay_node_ids sp, replay_N sp, map fst (link_classifiers sp))"

text \<open>
  What holds of the spider \<open>sp\<close>, the running generators \<open>gens\<close> and the allocation history
  \<open>hist\<close> in every world of a crawl with the form types of \<open>ev\<close> and \<open>replay_N = n\<close>:
  the ids were handed out in increasing order and all lie below the counter; the nodes
  of the graph are the allocated ids; a node has one incoming edge if its id was
  allocated for an extracted link and none otherwise; a running generator belongs to a
  node; the ids in the replay set were allocated for extracted links and their nodes
  carry observed scores; the configuration is that of the new spider.
\<close>

definition crawl_inv :: "env \<Rightarrow> int \<Rightarrow> AdaptiveSpider \<Rightarrow> generator list \<Rightarrow> alloc list \<Rightarrow> bool" where
  "crawl_inv ev n sp gens hist \<longleftrightarrow>
     sorted_wrt (<) (map alloc_id hist) \<and>
     (\<forall>a \<in> set hist. alloc_id a < node_ids sp) \<and>
     nodes (G sp) = alloc_id ` set hist \<and>
     (\<forall>v. length (in_edges (G sp) v) = (if Child v \<in> set hist then 1 else 0)) \<and>
     (\<forall>g \<in> set gens. this_node_id g \<in> nodes (G sp)) \<and>
     (\<forall>v. v |\<in>| replay_node_ids sp \<longrightarrow>
        Child v \<in> set hist \<and> (\<exists>d. node_attr (G sp) v ''scores'' = Inr (PyScores d))) \<and>
     replay_N sp = n \<and>
     map fst (link_classifiers sp) = map fst (link_classifiers (spider_init ev n))"

section \<open>A crawl with recording classifiers\<close>

text \<open>
  Collaborators that make the training call visible: the vector of a link is the length
  of its url, and \<open>partial_fit\<close> leaves in \<open>coef_\<close> the rows of \<open>X\<close> followed by the labels
  \<open>y\<close> (1 for \<open>True\<close>, 0 for \<open>False\<close>) it was called with.
\<close>

definition ev_rec :: env where
  "ev_rec = \<lparr>available_form_types = [''a'', ''b''],
             transform = map (\<lambda>l. [real (length (concat (map snd l)))]),
             predict_proba = (\<lambda>c X. map (\<lambda>x. 7 / 10) X),
             partial_fit = (\<lambda>c X y. c\<lparr>coef := Some (concat X @ map (\<lambda>b. if b then 1 else 0) y)\<rparr>)\<rparr>"

text \<open>
  A seed response with two links, whose urls have 10 and 11 characters, and the response
  for node \<open>1\<close>, with observed scores \<open>{a: 0.9, b: 0.1}\<close>; the response \<open>r_child 2\<close> for
  node \<open>2\<close> has \<open>{a: 0.2, b: 0.6}\<close>.
\<close>

definition r0_rec :: response where
  "r0_rec = \<lparr>meta_node_id = None, status = 200, has_text = True, url = ''http://d/'',
             max_scores = [(''a'', 0.9), (''b'', 0.1)], domain = ''d'',
             link_dicts = [link_ex ''http://d/1'', link_ex ''http://d/22'']\<rparr>"

definition r1_rec :: response where
  "r1_rec = \<lparr>meta_node_id = Some 1, status = 200, has_text = True, url = ''http://d/1'',
             max_scores = [(''a'', 0.9), (''b'', 0.1)], domain = ''d'',
             link_dicts = []\<rparr>"

text \<open>
  A crawl with \<open>replay_N = 1\<close>: the seed response arrives, its generator yields the
  requests for the nodes \<open>1\<close> and \<open>2\<close>, and the response for node \<open>1\<close> arrives.
  \<open>w_rec\<close> is the world then.
\<close>

definition es_rec :: "event list" where
  "es_rec = [Response r0_rec [] [link_ex ''http://d/1'', link_ex ''http://d/22''],
             Next 0, Next 0, Response r1_rec [] []]"

definition w_rec :: world where
  "w_rec = (case run ev_rec (world_init ev_rec 1) es_rec of
              None \<Rightarrow> world_init ev_rec 1
            | Some w \<Rightarrow> w)"

text \<open>
  The world after the response for node \<open>2\<close> has arrived in \<open>w_rec\<close>, when the random
  choice of \<open>random.sample\<close> prefers the id \<open>2\<close>.
\<close>

definition w_rec2 :: world where
  "w_rec2 = (case step ev_rec w_rec (Response (r_child 2) [2] []) of
               None \<Rightarrow> w_rec
             | Some w \<Rightarrow> w)"

text \<open>
  The spider after \<open>parse\<close> of the response for node \<open>2\<close> in \<open>w_rec\<close>, for a random choice
  that prefers the id \<open>i\<close>.
\<close>

definition sp_rec2 :: "nat \<Rightarrow> AdaptiveSpider" where
  "sp_rec2 i = (case parse ev_rec (spider w_rec) (r_child 2) [i] [] of
                  Inl (err, sp') \<Rightarrow> sp'
                | Inr (sp', gen) \<Rightarrow> sp')"

section \<open>Properties of \<open>MaxScores\<close>\<close>

lemma update_loop_lookup:
  "update_loop cur sc = Inr cur' \<Longrightarrow> distinct (map fst sc) \<Longrightarrow>
   map_of cur' k =
     (case map_of sc k of
        None \<Rightarrow> map_of cur k
      | Some v \<Rightarrow> map_option (\<lambda>c. max c v) (map_of cur k))"
proof (induction sc arbitrary: cur)
  case Nil
  then show ?case by simp
next
  case (Cons p rest)
  obtain k' v' where p: "p = (k', v')" by (cases p)
  from Cons.prems(1) p obtain c where c: "map_of cur k' = Some c"
    and rec: "update_loop (AList.update k' (max c v') cur) rest = Inr cur'"
    by (auto split: option.splits)
  from Cons.prems(2) p have d: "distinct (map fst rest)" and nin: "k' \<notin> fst ` set rest" by auto
  have ih: "map_of cur' k =
     (case map_of rest k of
        None \<Rightarrow> map_of (AList.update k' (max c v') cur) k
      | Some v \<Rightarrow> map_option (\<lambda>c. max c v) (map_of (AList.update k' (max c v') cur) k))"
    using Cons.IH [OF rec d] .
  show ?case
  proof (cases "k = k'")
    case True
    with nin have "map_of rest k = None" by (simp add: map_of_eq_None_iff)
    with ih True p c show ?thesis by (simp add: update_conv')
  next
    case False
    with ih p show ?thesis by (simp add: update_conv' split: option.splits)
  qed
qed

lemma update_loop_defined:
  "update_loop cur sc = Inr cur' \<Longrightarrow> map_of sc k = Some v \<Longrightarrow> map_of cur k \<noteq> None"
proof (induction sc arbitrary: cur)
  case Nil
  then show ?case by simp
next
  case (Cons p rest)
  obtain k' v' where p: "p = (k', v')" by (cases p)
  from Cons.prems(1) p obtain c where c: "map_of cur k' = Some c"
    and rec: "update_loop (AList.update k' (max c v') cur) rest = Inr cur'"
    by (auto split: option.splits)
  show ?case
  proof (cases "k = k'")
    case True
    with c show ?thesis by simp
  next
    case False
    with Cons.prems(2) p have "map_of rest k = Some v" by simp
    from Cons.IH [OF rec this] False show ?thesis by (simp add: update_conv')
  qed
qed

lemma const_dict_lookup:
  "map_of (foldl (\<lambda>d k. AList.update k c d) acc cls) k =
     (if k \<in> set cls then Some c else map_of acc k)"
  by (induction cls arbitrary: acc) (simp_all add: update_conv')

lemma zero_dict_lookup: "map_of (zero_dict cls) k = (if k \<in> set cls then Some 0 else None)"
  by (simp add: zero_dict_def const_dict_lookup)

lemma update_Inr:
  assumes "update ms d sc = Inr ms'"
  shows "\<exists>cur'. update_loop (entry ms d) sc = Inr cur' \<and>
           ms' = ms\<lparr>scores := AList.update d cur' (scores ms)\<rparr>"
  using assms by (auto simp: update_def Let_def split: sum.splits prod.splits)

lemma MaxScores_example:
  "\<exists>s1 s2 s3.
     update (MaxScores_init [''a'', ''b'']) ''foo'' [(''a'', 0.1), (''b'', 0.3)] = Inr s1 \<and>
     update s1 ''foo'' [(''a'', 0.01), (''b'', 0.4)] = Inr s2 \<and>
     update s2 ''bar'' [(''a'', 0.8)] = Inr s3 \<and>
     sum_ms s3 = Inr [(''a'', 0.9), (''b'', 0.4)] \<and>
     avg s3 = Inr [(''a'', 0.45), (''b'', 0.2)] \<and>
     len_ms s3 = 2"
  by (simp add: update_def entry_def MaxScores_init_def zero_dict_def sum_ms_def avg_def len_ms_def)

lemma update_general:
  assumes u: "update ms d sc = Inr ms'" and dist: "distinct (map fst sc)"
  shows "map_of (scores ms') d = Some (entry ms' d)"
    and "map_of sc k = Some v \<Longrightarrow>
           \<exists>c. map_of (entry ms d) k = Some c \<and> map_of (entry ms' d) k = Some (max c v)"
    and "map_of sc k = None \<Longrightarrow> map_of (entry ms' d) k = map_of (entry ms d) k"
    and "d' \<noteq> d \<Longrightarrow> map_of (scores ms') d' = map_of (scores ms) d'"
    and "zero_scores ms' = zero_scores ms"
proof -
  from update_Inr [OF u] obtain cur' where
    l: "update_loop (entry ms d) sc = Inr cur'" and
    m: "ms' = ms\<lparr>scores := AList.update d cur' (scores ms)\<rparr>" by blast
  have e: "entry ms' d = cur'" by (simp add: m entry_def update_conv')
  show "map_of (scores ms') d = Some (entry ms' d)" by (simp add: e) (simp add: m update_conv')
  show "d' \<noteq> d \<Longrightarrow> map_of (scores ms') d' = map_of (scores ms) d'"
    by (simp add: m update_conv')
  show "zero_scores ms' = zero_scores ms" by (simp add: m)
  show "map_of sc k = None \<Longrightarrow> map_of (entry ms' d) k = map_of (entry ms d) k"
    using update_loop_lookup [OF l dist, of k] by (simp add: e)
  show "\<exists>c. map_of (entry ms d) k = Some c \<and> map_of (entry ms' d) k = Some (max c v)"
    if s: "map_of sc k = Some v"
  proof -
    from update_loop_defined [OF l s] obtain c where c: "map_of (entry ms d) k = Some c" by auto
    with update_loop_lookup [OF l dist, of k] s show ?thesis by (simp add: e)
  qed
qed

text \<open>
  C7.  Over the classes \<open>a\<close> and \<open>b\<close>, the three updates of the doctest succeed and end in
  a tracker whose \<open>sum()\<close> is \<open>{a: 0.9, b: 0.4}\<close>, whose \<open>avg()\<close> is \<open>{a: 0.45, b: 0.2}\<close> and
  whose length is 2.  In general an update that returns, with the score dictionary \<open>sc\<close>,
  leaves in the domain's entry, for every category of \<open>sc\<close>, the maximum of the value the
  entry had and the value of \<open>sc\<close>; it leaves the other categories of the entry and the
  other domains as they were.  The entry that a domain without one starts from is the
  zero scores, which a new tracker has at zero for every class, and no update changes them.
\<close>

theorem MaxScores_running_max:
  "(\<exists>s1 s2 s3.
      update (MaxScores_init [''a'', ''b'']) ''foo'' [(''a'', 0.1), (''b'', 0.3)] = Inr s1 \<and>
      update s1 ''foo'' [(''a'', 0.01), (''b'', 0.4)] = Inr s2 \<and>
      update s2 ''bar'' [(''a'', 0.8)] = Inr s3 \<and>
      sum_ms s3 = Inr [(''a'', 0.9), (''b'', 0.4)] \<and>
      avg s3 = Inr [(''a'', 0.45), (''b'', 0.2)] \<and>
      len_ms s3 = 2) \<and>
   (\<forall>ms d sc ms'. update ms d sc = Inr ms' \<and> distinct (map fst sc) \<longrightarrow>
      map_of (scores ms') d = Some (entry ms' d) \<and>
      (\<forall>k v. map_of sc k = Some v \<longrightarrow>
         (\<exists>c. map_of (entry ms d) k = Some c \<and> map_of (entry ms' d) k = Some (max c v))) \<and>
      (\<forall>k. map_of sc k = None \<longrightarrow> map_of (entry ms' d) k = map_of (entry ms d) k) \<and>
      (\<forall>d'. d' \<noteq> d \<longrightarrow> map_of (scores ms') d' = map_of (scores ms) d') \<and>
      zero_scores ms' = zero_scores ms) \<and>
   (\<forall>ms d. map_of (scores ms) d = None \<longrightarrow> entry ms d = zero_scores ms) \<and>
   (\<forall>cls k. scores (MaxScores_init cls) = [] \<and>
      map_of (zero_scores (MaxScores_init cls)) k = (if k \<in> set cls then Some 0 else None))"
proof (intro conjI allI impI)
  show "\<exists>s1 s2 s3.
      update (MaxScores_init [''a'', ''b'']) ''foo'' [(''a'', 0.1), (''b'', 0.3)] = Inr s1 \<and>
      update s1 ''foo'' [(''a'', 0.01), (''b'', 0.4)] = Inr s2 \<and>
      update s2 ''bar'' [(''a'', 0.8)] = Inr s3 \<and>
      sum_ms s3 = Inr [(''a'', 0.9), (''b'', 0.4)] \<and>
      avg s3 = Inr [(''a'', 0.45), (''b'', 0.2)] \<and>
      len_ms s3 = 2"
    by (rule MaxScores_example)
next
  fix ms d sc ms'
  assume a: "update ms d sc = Inr ms' \<and> distinct (map fst sc)"
  then have u: "update ms d sc = Inr ms'" and dist: "distinct (map fst sc)" by simp_all
  show "map_of (scores ms') d = Some (entry ms' d)" by (rule update_general(1) [OF u dist])
  show "zero_scores ms' = zero_scores ms" by (rule update_general(5) [OF u dist])
  show "\<exists>c. map_of (entry ms d) k = Some c \<and> map_of (entry ms' d) k = Some (max c v)"
    if "map_of sc k = Some v" for k v
    using that by (rule update_general(2) [OF u dist])
  show "map_of (entry ms' d) k = map_of (entry ms d) k" if "map_of sc k = None" for k
    using that by (rule update_general(3) [OF u dist])
  show "map_of (scores ms') d' = map_of (scores ms) d'" if "d' \<noteq> d" for d'
    using that by (rule update_general(4) [OF u dist])
next
  fix ms :: MaxScores and d
  assume "map_of (scores ms) d = None"
  then show "entry ms d = zero_scores ms" by (simp add: entry_def)
next
  fix cls :: "string list" and k
  show "scores (MaxScores_init cls) = []" by (simp add: MaxScores_init_def)
  show "map_of (zero_scores (MaxScores_init cls)) k = (if k \<in> set cls then Some 0 else None)"
    by (simp add: MaxScores_init_def zero_dict_lookup)
qed

theorem MaxScores_running_max_witness:
  "distinct (map fst [(''a'', 0.8::real)]) \<and>
   (\<exists>ms'. update (MaxScores_init [''a'', ''b'']) ''bar'' [(''a'', 0.8)] = Inr ms' \<and>
      map_of (entry ms' ''bar'') ''a'' = Some (8 / 10) \<and>
      map_of (entry ms' ''bar'') ''b'' = Some 0)"
proof -
  let ?ms = "MaxScores_init [''a'', ''b'']"
  let ?sc = "[(''a'', 0.8::real)]"
  obtain ms' where u: "update ?ms ''bar'' ?sc = Inr ms'"
    by (simp add: update_def entry_def MaxScores_init_def zero_dict_def)
  have dist: "distinct (map fst ?sc)" by simp
  have z: "map_of (entry ?ms ''bar'') ''a'' = Some 0" "map_of (entry ?ms ''bar'') ''b'' = Some 0"
    by (simp_all add: entry_def MaxScores_init_def zero_dict_def)
  from MaxScores_running_max have g:
    "\<forall>ms d sc ms'. update ms d sc = Inr ms' \<and> distinct (map fst sc) \<longrightarrow>
      map_of (scores ms') d = Some (entry ms' d) \<and>
      (\<forall>k v. map_of sc k = Some v \<longrightarrow>
         (\<exists>c. map_of (entry ms d) k = Some c \<and> map_of (entry ms' d) k = Some (max c v))) \<and>
      (\<forall>k. map_of sc k = None \<longrightarrow> map_of (entry ms' d) k = map_of (entry ms d) k) \<and>
      (\<forall>d'. d' \<noteq> d \<longrightarrow> map_of (scores ms') d' = map_of (scores ms) d') \<and>
      zero_scores ms' = zero_scores ms"
    by blast
  from g u dist have
    a: "\<forall>k v. map_of ?sc k = Some v \<longrightarrow>
         (\<exists>c. map_of (entry ?ms ''bar'') k = Some c \<and> map_of (entry ms' ''bar'') k = Some (max c v))"
    and b: "\<forall>k. map_of ?sc k = None \<longrightarrow> map_of (entry ms' ''bar'') k = map_of (entry ?ms ''bar'') k"
    by blast+
  have "map_of ?sc ''a'' = Some (8 / 10)" by simp
  with a z(1) have "map_of (entry ms' ''bar'') ''a'' = Some (8 / 10)" by fastforce
  moreover have "map_of ?sc ''b'' = None" by simp
  with b z(2) have "map_of (entry ms' ''bar'') ''b'' = Some 0" by simp
  ultimately show ?thesis using u dist by blast
qed

section \<open>Scoring links\<close>

lemma length_assign_probs: "length (assign_probs ft ps ds) = length ds"
  by (induction ft ps ds rule: assign_probs.induct) simp_all

lemma assign_probs_nth:
  "i < length ds \<Longrightarrow>
   assign_probs ft ps ds ! i = (if i < length ps then AList.update ft (ps ! i) (ds ! i) else ds ! i)"
proof (induction ft ps ds arbitrary: i rule: assign_probs.induct)
  case (1 ft p ps d ds)
  then show ?case by (cases i) simp_all
qed simp_all

lemma length_score_fold:
  "length (fold (\<lambda>(ft, c) ds. assign_probs ft (P c) ds) cls ds) = length ds"
  by (induction cls arbitrary: ds) (auto simp: length_assign_probs)

lemma score_fold_nth:
  assumes "i < length ds" "distinct (map fst cls)"
  shows "map_of (fold (\<lambda>(ft, c) ds. assign_probs ft (P c) ds) cls ds ! i) k =
     (case map_of cls k of
        None \<Rightarrow> map_of (ds ! i) k
      | Some c \<Rightarrow> if i < length (P c) then Some (P c ! i) else map_of (ds ! i) k)"
  using assms
proof (induction cls arbitrary: ds)
  case Nil
  then show ?case by simp
next
  case (Cons a cls)
  obtain ft c where a: "a = (ft, c)" by (cases a)
  from Cons.prems a have d: "distinct (map fst cls)" and nin: "ft \<notin> fst ` set cls" by auto
  have l: "i < length (assign_probs ft (P c) ds)" using Cons.prems(1) by (simp add: length_assign_probs)
  have n: "map_of cls ft = None" using nin by (simp add: map_of_eq_None_iff)
  show ?case
    using Cons.IH [OF l d] Cons.prems(1) n
    by (auto simp: a assign_probs_nth update_conv' split: option.splits)
qed

lemma get_link_scores_length: "length (get_link_scores ev sp links) = length links"
  by (simp add: get_link_scores_def Let_def length_score_fold)

lemma get_link_scores_nth:
  assumes "i < length links" "distinct (map fst (link_classifiers sp))"
  shows "map_of (get_link_scores ev sp links ! i) k =
     (case map_of (link_classifiers sp) k of
        None \<Rightarrow> None
      | Some c \<Rightarrow>
          if coef c = None then Some 0.5
          else if i < length (predict_proba ev c (transform ev links))
               then Some (predict_proba ev c (transform ev links) ! i) else None)"
proof -
  let ?P = "\<lambda>c. if coef c = None then replicate (length links) (0.5::real)
                 else predict_proba ev c (transform ev links)"
  from assms(1) have ne: "links \<noteq> []" by auto
  have "get_link_scores ev sp links =
      fold (\<lambda>(ft, c) ds. assign_probs ft (?P c) ds)
        (link_classifiers sp) (replicate (length links) [])"
    using ne by (simp add: get_link_scores_def Let_def)
  then show ?thesis
    using score_fold_nth [of i "replicate (length links) []" "link_classifiers sp" ?P k] assms
    by (auto split: option.splits)
qed

lemma distinct_const_dict:
  "distinct (map fst acc) \<Longrightarrow> distinct (map fst (foldl (\<lambda>d k. AList.update k c d) acc cls))"
  by (induction cls arbitrary: acc) (simp_all add: distinct_update)

lemma init_classifiers:
  "distinct (map fst (link_classifiers (spider_init ev n)))"
  "map_of (link_classifiers (spider_init ev n)) ft =
     (if ft \<in> set (available_form_types ev) then Some \<lparr>coef = None\<rparr> else None)"
  by (simp_all add: spider_init_def distinct_const_dict const_dict_lookup)

text \<open>
  C3.  In a spider whose classifier dictionary has the classifier \<open>c\<close> for the form type
  \<open>ft\<close>, and \<open>c\<close> is not fitted (\<open>coef_ is None\<close>), \<open>get_link_scores\<close> of a non-empty
  list of links returns one score dictionary for every link, each with exactly 0.5 for
  \<open>ft\<close>.  The classifiers of a new spider are all unfitted.
\<close>

theorem get_link_scores_unfitted:
  "(distinct (map fst (link_classifiers sp)) \<and> map_of (link_classifiers sp) ft = Some c \<and>
    coef c = None \<and> links \<noteq> [] \<longrightarrow>
      length (get_link_scores ev sp links) = length links \<and>
      (\<forall>i < length links. map_of (get_link_scores ev sp links ! i) ft = Some 0.5)) \<and>
   distinct (map fst (link_classifiers (spider_init ev n))) \<and>
   (\<forall>c'. map_of (link_classifiers (spider_init ev n)) ft = Some c' \<longrightarrow> coef c' = None)"
proof (intro conjI impI allI)
  assume a: "distinct (map fst (link_classifiers sp)) \<and> map_of (link_classifiers sp) ft = Some c \<and>
    coef c = None \<and> links \<noteq> []"
  show "length (get_link_scores ev sp links) = length links" by (rule get_link_scores_length)
  fix i assume "i < length links"
  with a show "map_of (get_link_scores ev sp links ! i) ft = Some 0.5"
    by (simp add: get_link_scores_nth)
next
  show "distinct (map fst (link_classifiers (spider_init ev n)))" by (rule init_classifiers)
next
  fix c' assume "map_of (link_classifiers (spider_init ev n)) ft = Some c'"
  then show "coef c' = None" by (auto simp: init_classifiers split: if_splits)
qed

theorem get_link_scores_unfitted_witness:
  "distinct (map fst (link_classifiers (spider_init ev_ex 0))) \<and>
   map_of (link_classifiers (spider_init ev_ex 0)) ''a'' = Some \<lparr>coef = None\<rparr> \<and>
   coef \<lparr>coef = None\<rparr> = None \<and> [link_ex ''u1'', link_ex ''u2''] \<noteq> [] \<and>
   length (get_link_scores ev_ex (spider_init ev_ex 0) [link_ex ''u1'', link_ex ''u2'']) = 2 \<and>
   map_of (get_link_scores ev_ex (spider_init ev_ex 0) [link_ex ''u1'', link_ex ''u2''] ! 1) ''a'' = Some 0.5"
proof -
  let ?sp = "spider_init ev_ex 0"
  let ?ls = "[link_ex ''u1'', link_ex ''u2'']"
  have h: "distinct (map fst (link_classifiers ?sp)) \<and>
      map_of (link_classifiers ?sp) ''a'' = Some \<lparr>coef = None\<rparr> \<and>
      coef \<lparr>coef = None\<rparr> = None \<and> ?ls \<noteq> []"
    by (simp add: spider_init_def ev_ex_def)
  from get_link_scores_unfitted [of ?sp "''a''" "\<lparr>coef = None\<rparr>" ?ls ev_ex 0] h
  have "length (get_link_scores ev_ex ?sp ?ls) = length ?ls \<and>
      (\<forall>i < length ?ls. map_of (get_link_scores ev_ex ?sp ?ls ! i) ''a'' = Some 0.5)"
    by blast
  then have "length (get_link_scores ev_ex ?sp ?ls) = 2"
    and "map_of (get_link_scores ev_ex ?sp ?ls ! 1) ''a'' = Some 0.5" by simp_all
  with h show ?thesis by blast
qed

section \<open>Graph operations\<close>

lemma dict_update_lookup:
  "map_of (dict_update d kvs) k =
     (case map_of (rev kvs) k of None \<Rightarrow> map_of d k | Some v \<Rightarrow> Some v)"
proof (induction kvs arbitrary: d)
  case Nil
  then show ?case by (simp add: dict_update_def)
next
  case (Cons a kvs)
  obtain k' v' where a: "a = (k', v')" by (cases a)
  have "dict_update d (a # kvs) = dict_update (AList.update k' v' d) kvs"
    by (simp add: dict_update_def a)
  then show ?case
    using Cons.IH [of "AList.update k' v' d"]
    by (auto simp: a update_conv' map_add_def split: option.splits)
qed

lemma edge_add_node [simp]: "edge (add_node g n a) = edge g"
  by (simp add: add_node_def)

lemma in_edges_add_node [simp]: "in_edges (add_node g n a) m = in_edges g m"
  by (simp add: in_edges_def)

lemma map_of_node_add_node:
  "map_of (node (add_node g n a)) m =
     (if m = n then Some (dict_update (case map_of (node g) n of None \<Rightarrow> [] | Some d \<Rightarrow> d) a)
      else map_of (node g) m)"
  by (simp add: add_node_def update_conv')

lemma nodes_add_node: "nodes (add_node g n a) = insert n (nodes g)"
  by (simp add: nodes_def add_node_def update_conv')

lemma keys_add_node_existing:
  "n \<in> nodes g \<Longrightarrow> map fst (node (add_node g n a)) = map fst (node g)"
  by (simp add: nodes_def add_node_def update_keys dom_map_of_conv_image_fst)

lemma nodes_conv: "nodes g = fst ` set (node g)"
  by (simp add: nodes_def dom_map_of_conv_image_fst)

lemma predecessors_iter_Inr:
  "predecessors_iter g n = Inr ps \<longleftrightarrow> n \<in> nodes g \<and> ps = map (\<lambda>e. fst (fst e)) (in_edges g n)"
  by (auto simp: predecessors_iter_def nodes_def)

lemma node_attr_add_node:
  "node_attr (add_node g n a) m k =
     (if m = n then
        (case map_of (rev a) k of
           Some v \<Rightarrow> Inr v
         | None \<Rightarrow> (case map_of (node g) n of None \<Rightarrow> Inl KeyError | Some d \<Rightarrow> node_attr g n k))
      else node_attr g m k)"
  by (auto simp: node_attr_def map_of_node_add_node dict_update_lookup split: option.splits)

lemma predecessors_iter_add_node:
  "predecessors_iter (add_node g n a) m =
     (if m = n then Inr (map (\<lambda>e. fst (fst e)) (in_edges g m)) else predecessors_iter g m)"
  by (simp add: predecessors_iter_def map_of_node_add_node)

section \<open>The example crawl\<close>

lemma run_es_ex: "run ev_ex (world_init ev_ex 1) es_ex = Some w_ex"
  by code_simp

lemma step_w_ex: "step ev_ex w_ex (Response (r_child 1) [] []) = Some w_ex1"
  by code_simp

lemma run_append:
  "run ev w (es @ es') = (case run ev w es of None \<Rightarrow> None | Some w' \<Rightarrow> run ev w' es')"
  by (induction es arbitrary: w) (simp_all split: option.splits)

lemma reachable_init: "reachable ev n (world_init ev n)"
  unfolding reachable_def by (rule exI [of _ "[]"]) simp

lemma reachable_step: "reachable ev n w \<Longrightarrow> step ev w e = Some w' \<Longrightarrow> reachable ev n w'"
  unfolding reachable_def
proof -
  assume "\<exists>es. run ev (world_init ev n) es = Some w" and s: "step ev w e = Some w'"
  then obtain es where "run ev (world_init ev n) es = Some w" by blast
  with s have "run ev (world_init ev n) (es @ [e]) = Some w'" by (simp add: run_append)
  then show "\<exists>es. run ev (world_init ev n) es = Some w'" by blast
qed

lemma reachable_w_ex: "reachable ev_ex 1 w_ex"
  unfolding reachable_def using run_es_ex by blast

lemma reachable_w_ex1: "reachable ev_ex 1 w_ex1"
  using reachable_w_ex step_w_ex by (rule reachable_step)

section \<open>Re-scoring the frontier\<close>

lemma collect_links_nodes:
  "collect_links g ns = Inr r \<Longrightarrow> set (snd r) \<subseteq> nodes g"
proof (induction ns arbitrary: r)
  case Nil
  then show ?case by auto
next
  case (Cons n ns)
  from Cons.prems obtain ps r' where
    p: "predecessors_iter g n = Inr ps" and c: "collect_links g ns = Inr r'" and
    r: "r = (map snd (in_edges g n) @ fst r', replicate (length ps) n @ snd r')"
    by (auto split: sum.splits)
  from p have "n \<in> nodes g" by (simp add: predecessors_iter_Inr)
  with Cons.IH [OF c] r show ?case by auto
qed

lemma collect_links_total:
  "set ns \<subseteq> nodes g \<Longrightarrow> \<exists>r. collect_links g ns = Inr r"
proof (induction ns)
  case Nil
  then show ?case by simp
next
  case (Cons n ns)
  then obtain r where r: "collect_links g ns = Inr r" by auto
  from Cons.prems have "predecessors_iter g n = Inr (map (\<lambda>e. fst (fst e)) (in_edges g n))"
    by (simp add: predecessors_iter_Inr)
  with r show ?case by simp
qed

lemma write_back_frame:
  assumes "fst ` set zs \<subseteq> nodes g"
  shows "edge (fold (\<lambda>(n, sc) g. add_node g n [(''predicted_scores'', PyScores sc)]) zs g) = edge g \<and>
     map fst (node (fold (\<lambda>(n, sc) g. add_node g n [(''predicted_scores'', PyScores sc)]) zs g))
           = map fst (node g) \<and>
     (\<forall>m k. k \<noteq> ''predicted_scores'' \<longrightarrow>
         node_attr (fold (\<lambda>(n, sc) g. add_node g n [(''predicted_scores'', PyScores sc)]) zs g) m k
           = node_attr g m k)"
  using assms
proof (induction zs arbitrary: g)
  case Nil
  show ?case by simp
next
  case (Cons z zs)
  obtain n sc where z: "z = (n, sc)" by (cases z)
  let ?g = "add_node g n [(''predicted_scores'', PyScores sc)]"
  from Cons.prems have n: "n \<in> nodes g" and r: "fst ` set zs \<subseteq> nodes ?g"
    by (auto simp: z nodes_add_node)
  from n obtain d where "map_of (node g) n = Some d" by (auto simp: nodes_def)
  then have a: "\<And>m k. k \<noteq> ''predicted_scores'' \<Longrightarrow> node_attr ?g m k = node_attr g m k"
    by (simp add: node_attr_add_node)
  show ?case using Cons.IH [OF r] keys_add_node_existing [OF n] a by (simp add: z)
qed

lemma recalculate_cases:
  "recalculate_link_scores' ev sp m active =
     (if (case m of None \<Rightarrow> False | Some c \<Rightarrow> response_count sp - scores_recalculated_at sp \<le> c)
      then Inr (sp, False)
      else (case collect_links (G sp) active of
              Inl e \<Rightarrow> Inl (e, sp)
            | Inr r \<Rightarrow>
                Inr (sp\<lparr>G := fold (\<lambda>(n, sc) g. add_node g n [(''predicted_scores'', PyScores sc)])
                                (zip (snd r) (get_link_scores ev sp (fst r))) (G sp),
                        scores_recalculated_at := response_count sp\<rparr>, True)))"
  by (simp add: recalculate_link_scores'_def Let_def split: sum.splits)

lemma recalculate_Inr:
  assumes "recalculate_link_scores' ev sp m active = Inr (sp', called)"
  shows "(sp' = sp \<and> \<not> called \<and>
          (case m of None \<Rightarrow> False | Some c \<Rightarrow> response_count sp - scores_recalculated_at sp \<le> c)) \<or>
         (\<exists>r. collect_links (G sp) active = Inr r \<and> called \<and>
            \<not> (case m of None \<Rightarrow> False | Some c \<Rightarrow> response_count sp - scores_recalculated_at sp \<le> c) \<and>
            sp' = sp\<lparr>G := fold (\<lambda>(n, sc) g. add_node g n [(''predicted_scores'', PyScores sc)])
                                (zip (snd r) (get_link_scores ev sp (fst r))) (G sp),
                        scores_recalculated_at := response_count sp\<rparr>)"
proof (cases "case m of None \<Rightarrow> False | Some c \<Rightarrow> response_count sp - scores_recalculated_at sp \<le> c")
  case True
  with assms show ?thesis unfolding recalculate_cases by simp
next
  case False
  show ?thesis
  proof (cases "collect_links (G sp) active")
    case (Inl e)
    with assms False show ?thesis unfolding recalculate_cases by simp
  next
    case (Inr r)
    with assms False show ?thesis unfolding recalculate_cases by simp
  qed
qed

lemma recalculate_frame:
  assumes "recalculate_link_scores' ev sp m active = Inr (sp', called)"
  shows "edge (G sp') = edge (G sp) \<and> map fst (node (G sp')) = map fst (node (G sp)) \<and>
     (\<forall>n k. k \<noteq> ''predicted_scores'' \<longrightarrow> node_attr (G sp') n k = node_attr (G sp) n k) \<and>
     replay_N sp' = replay_N sp \<and> node_ids sp' = node_ids sp \<and>
     replay_node_ids sp' = replay_node_ids sp \<and> response_count sp' = response_count sp \<and>
     domain_scores sp' = domain_scores sp \<and> link_classifiers sp' = link_classifiers sp"
  using recalculate_Inr [OF assms]
proof (elim disjE conjE exE)
  assume "sp' = sp"
  then show ?thesis by simp
next
  fix r
  assume c: "collect_links (G sp) active = Inr r"
    and s: "sp' = sp\<lparr>G := fold (\<lambda>(n, sc) g. add_node g n [(''predicted_scores'', PyScores sc)])
                                (zip (snd r) (get_link_scores ev sp (fst r))) (G sp),
                        scores_recalculated_at := response_count sp\<rparr>"
  have "fst ` set (zip (snd r) (get_link_scores ev sp (fst r))) \<subseteq> nodes (G sp)"
    using collect_links_nodes [OF c] by (auto dest: set_zip_leftD)
  from write_back_frame [OF this] show ?thesis by (simp add: s)
qed

lemma recalculate_raises:
  assumes "recalculate_link_scores' ev sp m active = Inl (err, sp')"
  shows "sp' = sp \<and>
     \<not> (case m of None \<Rightarrow> False | Some c \<Rightarrow> response_count sp - scores_recalculated_at sp \<le> c)"
proof (cases "case m of None \<Rightarrow> False | Some c \<Rightarrow> response_count sp - scores_recalculated_at sp \<le> c")
  case True
  with assms show ?thesis unfolding recalculate_cases by simp
next
  case False
  show ?thesis
  proof (cases "collect_links (G sp) active")
    case (Inl e)
    with assms False show ?thesis unfolding recalculate_cases by simp
  next
    case (Inr r)
    with assms False show ?thesis unfolding recalculate_cases by simp
  qed
qed

text \<open>
  C4.  A re-scoring pass that returns leaves every attribute of every node other than
  \<open>predicted_scores\<close> as it was (the observed \<open>scores\<close>, \<open>url\<close>, \<open>visited\<close>, \<open>ok\<close> and
  \<open>response_id\<close> among them), and it adds or removes no node and no edge; a pass that
  raises has changed nothing.
\<close>

theorem rescoring_changes_predicted_scores_only:
  "(recalculate_link_scores' ev sp m active = Inr (sp', called) \<longrightarrow>
      (\<forall>n k. k \<noteq> ''predicted_scores'' \<longrightarrow> node_attr (G sp') n k = node_attr (G sp) n k) \<and>
      map fst (node (G sp')) = map fst (node (G sp)) \<and>
      edge (G sp') = edge (G sp)) \<and>
   (recalculate_link_scores' ev sp m active = Inl (err, sp') \<longrightarrow> sp' = sp)"
proof (intro conjI impI)
  assume a: "recalculate_link_scores' ev sp m active = Inr (sp', called)"
  from recalculate_frame [OF a]
  show "\<forall>n k. k \<noteq> ''predicted_scores'' \<longrightarrow> node_attr (G sp') n k = node_attr (G sp) n k"
    and "map fst (node (G sp')) = map fst (node (G sp))"
    and "edge (G sp') = edge (G sp)"
    by simp_all
next
  assume "recalculate_link_scores' ev sp m active = Inl (err, sp')"
  then show "sp' = sp" by (simp add: recalculate_raises)
qed

theorem rescoring_changes_predicted_scores_only_witness:
  "recalculate_link_scores' ev_ex sp_ex1 None [2] = Inr (sp_ex2, True) \<and>
   ''scores'' \<noteq> ''predicted_scores'' \<and>
   node_attr (G sp_ex2) 1 ''scores'' = node_attr (G sp_ex1) 1 ''scores'' \<and>
   node_attr (G sp_ex1) 1 ''scores'' = Inr (PyScores [(''a'', 2 / 10), (''b'', 6 / 10)]) \<and>
   node_attr (G sp_ex1) 2 ''predicted_scores'' = Inr (PyScores [(''a'', 1 / 2), (''b'', 1 / 2)]) \<and>
   node_attr (G sp_ex2) 2 ''predicted_scores'' = Inr (PyScores [(''a'', 7 / 10), (''b'', 7 / 10)])"
proof -
  have r: "recalculate_link_scores' ev_ex sp_ex1 None [2] = Inr (sp_ex2, True)"
    by code_simp
  have k: "''scores'' \<noteq> ''predicted_scores''" by simp
  have f: "node_attr (G sp_ex2) 1 ''scores'' = node_attr (G sp_ex1) 1 ''scores''"
    by (rule rescoring_changes_predicted_scores_only
        [THEN conjunct1, THEN mp, OF r, THEN conjunct1, rule_format, OF k])
  have a: "node_attr (G sp_ex1) 1 ''scores'' = Inr (PyScores [(''a'', 2 / 10), (''b'', 6 / 10)])"
    by code_simp
  have b: "node_attr (G sp_ex1) 2 ''predicted_scores'' = Inr (PyScores [(''a'', 1 / 2), (''b'', 1 / 2)])"
    by code_simp
  have c: "node_attr (G sp_ex2) 2 ''predicted_scores'' = Inr (PyScores [(''a'', 7 / 10), (''b'', 7 / 10)])"
    by code_simp
  show ?thesis by (intro conjI) (rule r k f a b c)+
qed

text \<open>
  C6.  With the threshold \<open>max(500, len(self.domain_scores))\<close>: when the number of
  responses counted since the last completed pass does not exceed the threshold,
  \<open>recalculate_link_scores\<close> returns with the spider unchanged and without calling
  \<open>recalculate_priorities\<close>.  So a call that changes the spider, calls
  \<open>recalculate_priorities\<close> or raises was made above the threshold.  Above the
  threshold, and with every active node id a node of the graph, the pass runs to its
  end: it calls \<open>recalculate_priorities\<close> and records the response count.
\<close>

theorem rescoring_threshold:
  "(response_count sp - scores_recalculated_at sp \<le> max 500 (int (len_ms (domain_scores sp))) \<longrightarrow>
      recalculate_link_scores ev sp active = Inr (sp, False)) \<and>
   (recalculate_link_scores ev sp active = Inr (sp', called) \<and> (called \<or> sp' \<noteq> sp) \<longrightarrow>
      max 500 (int (len_ms (domain_scores sp))) < response_count sp - scores_recalculated_at sp) \<and>
   (recalculate_link_scores ev sp active = Inl (err, sp') \<longrightarrow>
      sp' = sp \<and>
      max 500 (int (len_ms (domain_scores sp))) < response_count sp - scores_recalculated_at sp) \<and>
   (max 500 (int (len_ms (domain_scores sp))) < response_count sp - scores_recalculated_at sp \<and>
    set active \<subseteq> nodes (G sp) \<longrightarrow>
      (\<exists>sp''. recalculate_link_scores ev sp active = Inr (sp'', True) \<and>
         scores_recalculated_at sp'' = response_count sp))"
proof -
  let ?t = "max 500 (int (len_ms (domain_scores sp)))"
  have 1: "response_count sp - scores_recalculated_at sp \<le> ?t \<longrightarrow>
      recalculate_link_scores ev sp active = Inr (sp, False)"
    unfolding recalculate_link_scores_def recalculate_cases by simp
  have 2: "recalculate_link_scores ev sp active = Inr (sp', called) \<and> (called \<or> sp' \<noteq> sp) \<longrightarrow>
      ?t < response_count sp - scores_recalculated_at sp"
  proof
    assume a: "recalculate_link_scores ev sp active = Inr (sp', called) \<and> (called \<or> sp' \<noteq> sp)"
    then have "recalculate_link_scores' ev sp (Some ?t) active = Inr (sp', called)"
      by (simp add: recalculate_link_scores_def)
    from recalculate_Inr [OF this]
    have "(sp' = sp \<and> \<not> called) \<or> \<not> response_count sp - scores_recalculated_at sp \<le> ?t"
      by fastforce
    with a show "?t < response_count sp - scores_recalculated_at sp" by linarith
  qed
  have 3: "recalculate_link_scores ev sp active = Inl (err, sp') \<longrightarrow>
      sp' = sp \<and> ?t < response_count sp - scores_recalculated_at sp"
  proof
    assume "recalculate_link_scores ev sp active = Inl (err, sp')"
    then have "recalculate_link_scores' ev sp (Some ?t) active = Inl (err, sp')"
      by (simp add: recalculate_link_scores_def)
    from recalculate_raises [OF this]
    show "sp' = sp \<and> ?t < response_count sp - scores_recalculated_at sp"
      by (simp add: not_le)
  qed
  have 4: "?t < response_count sp - scores_recalculated_at sp \<and> set active \<subseteq> nodes (G sp) \<longrightarrow>
      (\<exists>sp''. recalculate_link_scores ev sp active = Inr (sp'', True) \<and>
         scores_recalculated_at sp'' = response_count sp)"
  proof
    assume a: "?t < response_count sp - scores_recalculated_at sp \<and> set active \<subseteq> nodes (G sp)"
    then obtain r where "collect_links (G sp) active = Inr r"
      using collect_links_total by blast
    with a show "\<exists>sp''. recalculate_link_scores ev sp active = Inr (sp'', True) \<and>
         scores_recalculated_at sp'' = response_count sp"
      unfolding recalculate_link_scores_def recalculate_cases by (simp add: not_le)
  qed
  show ?thesis by (rule conjI [OF 1 conjI [OF 2 conjI [OF 3 4]]])
qed

theorem rescoring_threshold_witness:
  "response_count sp_ex1 - scores_recalculated_at sp_ex1 \<le> max 500 (int (len_ms (domain_scores sp_ex1))) \<and>
   recalculate_link_scores ev_ex sp_ex1 [2] = Inr (sp_ex1, False) \<and>
   recalculate_link_scores ev_ex sp_ex600 [2] = Inr (sp_ex601, True) \<and>
   max 500 (int (len_ms (domain_scores sp_ex600))) < response_count sp_ex600 - scores_recalculated_at sp_ex600"
proof -
  have h: "response_count sp_ex1 - scores_recalculated_at sp_ex1
      \<le> max 500 (int (len_ms (domain_scores sp_ex1)))"
    by code_simp
  have r: "recalculate_link_scores ev_ex sp_ex600 [2] = Inr (sp_ex601, True)"
    by code_simp
  have 1: "recalculate_link_scores ev_ex sp_ex1 [2] = Inr (sp_ex1, False)"
    by (rule rescoring_threshold [THEN conjunct1, THEN mp, OF h])
  have 2: "max 500 (int (len_ms (domain_scores sp_ex600)))
      < response_count sp_ex600 - scores_recalculated_at sp_ex600"
    by (rule rescoring_threshold [THEN conjunct2, THEN conjunct1, THEN mp, OF conjI [OF r disjI1]]) simp
  show ?thesis by (intro conjI) (rule h 1 r 2)+
qed

section \<open>Recording a visit\<close>

lemma update_domain_scores_frame:
  "update_domain_scores sp r n = Inr sp' \<Longrightarrow> sp' = sp\<lparr>domain_scores := domain_scores sp'\<rparr>"
  "update_domain_scores sp r n = Inl (err, sp') \<Longrightarrow> sp' = sp\<lparr>domain_scores := domain_scores sp'\<rparr>"
  by (auto simp: update_domain_scores_def split: sum.splits if_splits val.splits prod.splits)

lemma update_response_node_child:
  assumes "meta_node_id r = Some n"
  shows "update_response_node ev sp r =
    (sp\<lparr>G := add_node (G sp) n
              [(''url'', PyStr (url r)),
               (''visited'', PyBool True),
               (''ok'', PyBool (status r = 200 \<and> has_text r)),
               (''scores'', PyScores (if status r = 200 \<and> has_text r then max_scores r
                                       else get_constant_scores ev 0)),
               (''response_id'', PyInt (response_count sp))],
         replay_node_ids := finsert n (replay_node_ids sp)\<rparr>, n)"
  using assms by (simp add: update_response_node_def Let_def)

lemma update_response_node_seed:
  assumes "meta_node_id r = None"
  shows "update_response_node ev sp r =
    (sp\<lparr>node_ids := Suc (node_ids sp),
         G := add_node (G sp) (node_ids sp)
              [(''url'', PyStr (url r)),
               (''visited'', PyBool True),
               (''ok'', PyBool (status r = 200 \<and> has_text r)),
               (''scores'', PyScores (if status r = 200 \<and> has_text r then max_scores r
                                       else get_constant_scores ev 0)),
               (''response_id'', PyInt (response_count sp))]\<rparr>, node_ids sp)"
  using assms by (simp add: update_response_node_def Let_def)

text \<open>
  C1, as the code has it.  \<open>update_response_node\<close> has no check for a node that is
  already visited and cannot fail: for a response that carries the id of a visited node
  it returns that id and overwrites the node's \<open>url\<close>, \<open>visited\<close>, \<open>ok\<close>, \<open>scores\<close> and
  \<open>response_id\<close> with those of the new response.  The node's other attributes, the other
  nodes and the edges stay as they were, and the id is (again) put into the replay set.
\<close>

theorem second_visit_overwrites:
  "meta_node_id r = Some n \<and> node_attr (G sp) n ''visited'' = Inr (PyBool True) \<longrightarrow>
     snd (update_response_node ev sp r) = n \<and>
     node_attr (G (fst (update_response_node ev sp r))) n ''url'' = Inr (PyStr (url r)) \<and>
     node_attr (G (fst (update_response_node ev sp r))) n ''visited'' = Inr (PyBool True) \<and>
     node_attr (G (fst (update_response_node ev sp r))) n ''ok''
       = Inr (PyBool (status r = 200 \<and> has_text r)) \<and>
     node_attr (G (fst (update_response_node ev sp r))) n ''scores''
       = Inr (PyScores (if status r = 200 \<and> has_text r then max_scores r
                        else get_constant_scores ev 0)) \<and>
     node_attr (G (fst (update_response_node ev sp r))) n ''response_id''
       = Inr (PyInt (response_count sp)) \<and>
     (\<forall>k. k \<notin> {''url'', ''visited'', ''ok'', ''scores'', ''response_id''} \<longrightarrow>
        node_attr (G (fst (update_response_node ev sp r))) n k = node_attr (G sp) n k) \<and>
     (\<forall>m k. m \<noteq> n \<longrightarrow>
        node_attr (G (fst (update_response_node ev sp r))) m k = node_attr (G sp) m k) \<and>
     edge (G (fst (update_response_node ev sp r))) = edge (G sp) \<and>
     replay_node_ids (fst (update_response_node ev sp r)) = finsert n (replay_node_ids sp) \<and>
     node_ids (fst (update_response_node ev sp r)) = node_ids sp"
proof
  assume a: "meta_node_id r = Some n \<and> node_attr (G sp) n ''visited'' = Inr (PyBool True)"
  then have m: "meta_node_id r = Some n" by simp
  from a obtain d where d: "map_of (node (G sp)) n = Some d"
    by (auto simp: node_attr_def split: option.splits)
  show "snd (update_response_node ev sp r) = n \<and>
     node_attr (G (fst (update_response_node ev sp r))) n ''url'' = Inr (PyStr (url r)) \<and>
     node_attr (G (fst (update_response_node ev sp r))) n ''visited'' = Inr (PyBool True) \<and>
     node_attr (G (fst (update_response_node ev sp r))) n ''ok''
       = Inr (PyBool (status r = 200 \<and> has_text r)) \<and>
     node_attr (G (fst (update_response_node ev sp r))) n ''scores''
       = Inr (PyScores (if status r = 200 \<and> has_text r then max_scores r
                        else get_constant_scores ev 0)) \<and>
     node_attr (G (fst (update_response_node ev sp r))) n ''response_id''
       = Inr (PyInt (response_count sp)) \<and>
     (\<forall>k. k \<notin> {''url'', ''visited'', ''ok'', ''scores'', ''response_id''} \<longrightarrow>
        node_attr (G (fst (update_response_node ev sp r))) n k = node_attr (G sp) n k) \<and>
     (\<forall>m k. m \<noteq> n \<longrightarrow>
        node_attr (G (fst (update_response_node ev sp r))) m k = node_attr (G sp) m k) \<and>
     edge (G (fst (update_response_node ev sp r))) = edge (G sp) \<and>
     replay_node_ids (fst (update_response_node ev sp r)) = finsert n (replay_node_ids sp) \<and>
     node_ids (fst (update_response_node ev sp r)) = node_ids sp"
    unfolding update_response_node_child [OF m]
    by (simp add: node_attr_add_node d)
qed

theorem second_visit_overwrites_witness:
  "meta_node_id (r_failed 1) = Some 1 \<and>
   node_attr (G sp_ex1) 1 ''visited'' = Inr (PyBool True) \<and>
   snd (update_response_node ev_ex sp_ex1 (r_failed 1)) = 1 \<and>
   node_attr (G (fst (update_response_node ev_ex sp_ex1 (r_failed 1)))) 1 ''ok'' = Inr (PyBool False)"
proof -
  have m: "meta_node_id (r_failed 1) = Some 1" by (simp add: r_failed_def)
  have v: "node_attr (G sp_ex1) 1 ''visited'' = Inr (PyBool True)" by code_simp
  note t = second_visit_overwrites [THEN mp, OF conjI [OF m v], of ev_ex]
  have s: "snd (update_response_node ev_ex sp_ex1 (r_failed 1)) = 1"
    by (rule t [THEN conjunct1])
  have "node_attr (G (fst (update_response_node ev_ex sp_ex1 (r_failed 1)))) 1 ''ok''
      = Inr (PyBool (status (r_failed 1) = 200 \<and> has_text (r_failed 1)))"
    by (rule t [THEN conjunct2, THEN conjunct2, THEN conjunct2, THEN conjunct1])
  then have k: "node_attr (G (fst (update_response_node ev_ex sp_ex1 (r_failed 1)))) 1 ''ok''
      = Inr (PyBool False)"
    by (simp add: r_failed_def)
  show ?thesis by (intro conjI) (rule m v s k)+
qed

text \<open>
  In the example crawl node \<open>1\<close> is visited, with observed scores \<open>{a: 0.2, b: 0.6}\<close>.  A
  second response for it, a failed one, is accepted: \<open>update_response_node\<close> returns the
  id \<open>1\<close> and the node's observed scores are now all zero.
\<close>

theorem double_visit_counterexample:
  "reachable ev_ex 1 w_ex1 \<and>
   spider w_ex1 = sp_ex1 \<and>
   node_attr (G sp_ex1) 1 ''visited'' = Inr (PyBool True) \<and>
   node_attr (G sp_ex1) 1 ''scores'' = Inr (PyScores [(''a'', 2 / 10), (''b'', 6 / 10)]) \<and>
   step ev_ex w_ex1 (Response (r_failed 1) [] []) \<noteq> None \<and>
   snd (update_response_node ev_ex sp_ex1 (r_failed 1)) = 1 \<and>
   node_attr (G (fst (update_response_node ev_ex sp_ex1 (r_failed 1)))) 1 ''scores''
     = Inr (PyScores [(''a'', 0), (''b'', 0)]) \<and>
   node_attr (G (fst (update_response_node ev_ex sp_ex1 (r_failed 1)))) 1 ''ok'' = Inr (PyBool False)"
proof -
  have 1: "spider w_ex1 = sp_ex1" by (simp add: w_ex1_def)
  have 2: "node_attr (G sp_ex1) 1 ''visited'' = Inr (PyBool True)" by code_simp
  have 3: "node_attr (G sp_ex1) 1 ''scores'' = Inr (PyScores [(''a'', 2 / 10), (''b'', 6 / 10)])"
    by code_simp
  have 4: "step ev_ex w_ex1 (Response (r_failed 1) [] []) \<noteq> None" by code_simp
  have 5: "snd (update_response_node ev_ex sp_ex1 (r_failed 1)) = 1" by code_simp
  have 6: "node_attr (G (fst (update_response_node ev_ex sp_ex1 (r_failed 1)))) 1 ''scores''
     = Inr (PyScores [(''a'', 0), (''b'', 0)])" by code_simp
  have 7: "node_attr (G (fst (update_response_node ev_ex sp_ex1 (r_failed 1)))) 1 ''ok''
     = Inr (PyBool False)" by code_simp
  show ?thesis by (intro conjI) (rule reachable_w_ex1 1 2 3 4 5 6 7)+
qed

section \<open>What the methods leave unchanged\<close>

lemma fit_all_keys:
  "fit_all ev X y cls = Inr cls' \<Longrightarrow> map fst cls' = map fst cls"
  "fit_all ev X y cls = Inl (err, cls') \<Longrightarrow> map fst cls' = map fst cls"
proof (induction cls arbitrary: cls' err)
  case Nil
  {
    case 1 then show ?case by simp
  next
    case 2 then show ?case by simp
  }
next
  case (Cons a cls)
  obtain ft c where a: "a = (ft, c)" by (cases a)
  {
    case 1
    then show ?case using Cons.IH(1)
      by (auto simp: a split: option.splits sum.splits prod.splits)
  next
    case 2
    then show ?case using Cons.IH(2)
      by (auto simp: a split: option.splits sum.splits prod.splits)
  }
qed

lemma update_classifiers_core:
  "update_classifiers ev sp n smp = Inr sp' \<Longrightarrow> core sp' = core sp"
  "update_classifiers ev sp n smp = Inl (err, sp') \<Longrightarrow> core sp' = core sp"
  by (auto simp: update_classifiers_def core_def fit_all_keys
      split: sum.splits option.splits prod.splits)

lemma update_domain_scores_core:
  "update_domain_scores sp r n = Inr sp' \<Longrightarrow> core sp' = core sp"
  "update_domain_scores sp r n = Inl (err, sp') \<Longrightarrow> core sp' = core sp"
proof -
  assume "update_domain_scores sp r n = Inr sp'"
  from update_domain_scores_frame(1) [OF this] have "sp' = sp\<lparr>domain_scores := domain_scores sp'\<rparr>" .
  then have "core sp' = core (sp\<lparr>domain_scores := domain_scores sp'\<rparr>)" by simp
  then show "core sp' = core sp" by (simp add: core_def)
next
  assume "update_domain_scores sp r n = Inl (err, sp')"
  from update_domain_scores_frame(2) [OF this] have "sp' = sp\<lparr>domain_scores := domain_scores sp'\<rparr>" .
  then have "core sp' = core (sp\<lparr>domain_scores := domain_scores sp'\<rparr>)" by simp
  then show "core sp' = core sp" by (simp add: core_def)
qed

text \<open>
  Whatever \<open>parse\<close> does after \<open>update_response_node\<close> changes only the domain scores and
  the classifiers; a generator it returns is that of the visited node.
\<close>

lemma parse_core:
  assumes "update_response_node ev (increase_response_count sp) r = (sp2, nid)"
  shows "parse ev sp r smp links = Inl (err, sp') \<Longrightarrow> core sp' = core sp2"
    and "parse ev sp r smp links = Inr (sp', gen) \<Longrightarrow>
           core sp' = core sp2 \<and> (\<forall>g. gen = Some g \<longrightarrow> this_node_id g = nid)"
proof -
  have p: "parse ev sp r smp links =
     (case update_domain_scores sp2 r nid of
           Inl e \<Rightarrow> Inl e
         | Inr sp3 \<Rightarrow>
             (case update_classifiers ev sp3 nid smp of
                Inl e \<Rightarrow> Inl e
              | Inr sp4 \<Rightarrow>
                  (case node_attr (G sp4) nid ''ok'' of
                     Inl e \<Rightarrow> Inl (e, sp4)
                   | Inr ok \<Rightarrow>
                       if \<not> truthy ok then Inr (sp4, None)
                       else Inr (sp4, Some (generate_out_nodes ev sp4 r nid links)))))"
    by (simp add: parse_def Let_def assms)
  show "core sp' = core sp2" if "parse ev sp r smp links = Inl (err, sp')"
  proof (cases "update_domain_scores sp2 r nid")
    case (Inl e)
    with that p have "update_domain_scores sp2 r nid = Inl (err, sp')" by simp
    then show ?thesis by (rule update_domain_scores_core)
  next
    case (Inr sp3)
    then have c3: "core sp3 = core sp2" by (rule update_domain_scores_core)
    show ?thesis
    proof (cases "update_classifiers ev sp3 nid smp")
      case (Inl e)
      with that p Inr have "update_classifiers ev sp3 nid smp = Inl (err, sp')" by simp
      then have "core sp' = core sp3" by (rule update_classifiers_core)
      with c3 show ?thesis by simp
    next
      case sp4: (Inr sp4)
      then have c4: "core sp4 = core sp3" by (rule update_classifiers_core)
      from that p Inr sp4 have "sp' = sp4"
        by (auto split: sum.splits if_splits)
      with c3 c4 show ?thesis by simp
    qed
  qed
  show "core sp' = core sp2 \<and> (\<forall>g. gen = Some g \<longrightarrow> this_node_id g = nid)"
    if "parse ev sp r smp links = Inr (sp', gen)"
  proof (cases "update_domain_scores sp2 r nid")
    case (Inl e)
    with that p show ?thesis by simp
  next
    case (Inr sp3)
    then have c3: "core sp3 = core sp2" by (rule update_domain_scores_core)
    show ?thesis
    proof (cases "update_classifiers ev sp3 nid smp")
      case (Inl e)
      with that p Inr show ?thesis by simp
    next
      case sp4: (Inr sp4)
      then have c4: "core sp4 = core sp3" by (rule update_classifiers_core)
      from that p Inr sp4 have "sp' = sp4 \<and> (\<forall>g. gen = Some g \<longrightarrow> this_node_id g = nid)"
        by (auto simp: generate_out_nodes_def split: sum.splits if_splits)
      with c3 c4 show ?thesis by simp
    qed
  qed
qed

lemma crawl_inv_core:
  "core sp' = core sp \<Longrightarrow> crawl_inv ev n sp' gens hist = crawl_inv ev n sp gens hist"
  by (simp add: core_def crawl_inv_def)

section \<open>The invariant holds throughout a crawl\<close>

lemma update_new_key: "k \<notin> fst ` set al \<Longrightarrow> AList.update k v al = al @ [(k, v)]"
  by (induction al) auto

lemma node_attr_add_node_empty:
  "u \<in> nodes g \<Longrightarrow> node_attr (add_node g u []) m k = node_attr g m k"
  by (auto simp: node_attr_add_node nodes_def)

lemma no_in_edge_key:
  assumes "in_edges g v = []"
  shows "(u, v) \<notin> fst ` set (edge g)"
proof
  assume "(u, v) \<in> fst ` set (edge g)"
  then obtain l where "((u, v), l) \<in> set (edge g)" by auto
  then have "((u, v), l) \<in> set (in_edges g v)" by (simp add: in_edges_def)
  with assms show False by simp
qed

lemma add_edge_new:
  assumes "in_edges g v = []"
  shows "edge (add_edge g u v l) = edge g @ [((u, v), l)]"
    and "in_edges (add_edge g u v l) m = in_edges g m @ (if m = v then [((u, v), l)] else [])"
    and "nodes (add_edge g u v l) = insert u (insert v (nodes g))"
proof -
  show e: "edge (add_edge g u v l) = edge g @ [((u, v), l)]"
    using no_in_edge_key [OF assms, of u] by (simp add: add_edge_def Let_def update_new_key)
  show "in_edges (add_edge g u v l) m = in_edges g m @ (if m = v then [((u, v), l)] else [])"
    unfolding in_edges_def e by simp
  have "nodes (add_edge g u v l) = nodes (add_node (add_node g u []) v [])"
    by (simp add: add_edge_def Let_def nodes_def)
  then show "nodes (add_edge g u v l) = insert u (insert v (nodes g))"
    by (auto simp: nodes_add_node)
qed

lemma node_attr_add_edge:
  "u \<in> nodes g \<Longrightarrow> v \<in> nodes g \<Longrightarrow> node_attr (add_edge g u v l) m k = node_attr g m k"
proof -
  assume u: "u \<in> nodes g" and v: "v \<in> nodes g"
  have "node_attr (add_edge g u v l) m k = node_attr (add_node (add_node g u []) v []) m k"
    by (simp add: add_edge_def Let_def node_attr_def)
  also have "\<dots> = node_attr (add_node g u []) m k"
    using v by (simp add: node_attr_add_node_empty nodes_add_node)
  also have "\<dots> = node_attr g m k"
    using u by (simp add: node_attr_add_node_empty)
  finally show ?thesis .
qed

lemma crawl_inv_init: "crawl_inv ev n (spider_init ev n) [] []"
  by (simp add: crawl_inv_def spider_init_def nodes_def in_edges_def)

lemma crawl_inv_gens:
  "crawl_inv ev n sp gens hist \<Longrightarrow> \<forall>g \<in> set gens'. this_node_id g \<in> nodes (G sp) \<Longrightarrow>
   crawl_inv ev n sp gens' hist"
  by (simp add: crawl_inv_def)

lemma scores_attr_after_visit:
  "\<exists>d. node_attr (add_node g v
          [(''url'', a1), (''visited'', a2), (''ok'', a3), (''scores'', PyScores sc), (''response_id'', a5)])
        v ''scores'' = Inr (PyScores d)"
  by (simp add: node_attr_add_node)

lemma crawl_inv_visit:
  assumes inv: "crawl_inv ev n sp gens hist"
    and known: "case meta_node_id r of None \<Rightarrow> True | Some k \<Rightarrow> Child k \<in> set hist"
    and u: "update_response_node ev (increase_response_count sp) r = (sp2, nid)"
  shows "crawl_inv ev n sp2 gens
           (case meta_node_id r of None \<Rightarrow> hist @ [Seed (node_ids sp)] | Some k \<Rightarrow> hist) \<and>
         nid \<in> nodes (G sp2)"
proof -
  define attrs where "attrs = [(''url'', PyStr (url r)),
               (''visited'', PyBool True),
               (''ok'', PyBool (status r = 200 \<and> has_text r)),
               (''scores'', PyScores (if status r = 200 \<and> has_text r then max_scores r
                                       else get_constant_scores ev 0)),
               (''response_id'', PyInt (response_count (increase_response_count sp)))]"
  obtain d where sc: "map_of (rev attrs) ''scores'' = Some (PyScores d)"
    by (simp add: attrs_def)
  show ?thesis
  proof (cases "meta_node_id r")
    case None
    have "update_response_node ev (increase_response_count sp) r =
        ((increase_response_count sp)\<lparr>node_ids := Suc (node_ids sp),
           G := add_node (G sp) (node_ids sp) attrs\<rparr>, node_ids sp)"
      unfolding attrs_def update_response_node_seed [OF None]
      by (simp add: increase_response_count_def)
    with u have sp2: "sp2 = (increase_response_count sp)\<lparr>node_ids := Suc (node_ids sp),
         G := add_node (G sp) (node_ids sp) attrs\<rparr>" and nid: "nid = node_ids sp"
      by auto
    have fresh: "\<And>v. Child v \<in> set hist \<Longrightarrow> v \<noteq> node_ids sp"
      using inv by (auto simp: crawl_inv_def)
    have "crawl_inv ev n sp2 gens (hist @ [Seed (node_ids sp)])"
      using inv fresh unfolding crawl_inv_def sp2
      by (auto simp: increase_response_count_def nodes_add_node sorted_wrt_append
          node_attr_add_node less_Suc_eq)
    then show ?thesis by (simp add: None sp2 nid nodes_add_node)
  next
    case (Some k)
    have "update_response_node ev (increase_response_count sp) r =
        ((increase_response_count sp)\<lparr>G := add_node (G sp) k attrs,
           replay_node_ids := finsert k (replay_node_ids sp)\<rparr>, k)"
      unfolding attrs_def update_response_node_child [OF Some]
      by (simp add: increase_response_count_def)
    with u have sp2: "sp2 = (increase_response_count sp)\<lparr>G := add_node (G sp) k attrs,
         replay_node_ids := finsert k (replay_node_ids sp)\<rparr>" and nid: "nid = k"
      by auto
    from known Some have c: "Child k \<in> set hist" by simp
    with inv have kn: "k \<in> nodes (G sp)" by (force simp: crawl_inv_def)
    have "crawl_inv ev n sp2 gens hist"
      using inv c kn sc unfolding crawl_inv_def sp2
      by (auto simp: increase_response_count_def nodes_add_node insert_absorb
          node_attr_add_node)
    then show ?thesis by (simp add: Some sp2 nid nodes_add_node)
  qed
qed

lemma generate_next_cases:
  "generate_next sp gen =
     (case todo gen of
        [] \<Rightarrow> Inr (sp, None)
      | p # rest \<Rightarrow>
          (case map_of (fst p) ''url'' of
             None \<Rightarrow> Inl (KeyError, sp)
           | Some u \<Rightarrow>
               Inr (sp\<lparr>node_ids := Suc (node_ids sp),
                       G := add_edge (add_node (G sp) (node_ids sp)
                          [(''url'', PyStr u),
                           (''visited'', PyBool False),
                           (''ok'', PyNone),
                           (''scores'', PyNone),
                           (''response_id'', PyNone),
                           (''predicted_scores'', PyScores (snd p))])
                          (this_node_id gen) (node_ids sp) (fst p)\<rparr>,
                    Some (gen\<lparr>todo := rest\<rparr>,
                          \<lparr>req_url = u, req_node_id = node_ids sp, req_domain = gen_domain gen\<rparr>))))"
  by (simp add: generate_next_def Let_def split: list.splits prod.splits option.splits)

lemma crawl_invI:
  assumes "sorted_wrt (<) (map alloc_id hist)"
    and "\<And>a. a \<in> set hist \<Longrightarrow> alloc_id a < node_ids sp"
    and "nodes (G sp) = alloc_id ` set hist"
    and "\<And>v. length (in_edges (G sp) v) = (if Child v \<in> set hist then 1 else 0)"
    and "\<And>g. g \<in> set gens \<Longrightarrow> this_node_id g \<in> nodes (G sp)"
    and "\<And>v. v |\<in>| replay_node_ids sp \<Longrightarrow> Child v \<in> set hist"
    and "\<And>v. v |\<in>| replay_node_ids sp \<Longrightarrow> \<exists>d. node_attr (G sp) v ''scores'' = Inr (PyScores d)"
    and "replay_N sp = n"
    and "map fst (link_classifiers sp) = map fst (link_classifiers (spider_init ev n))"
  shows "crawl_inv ev n sp gens hist"
  unfolding crawl_inv_def using assms by blast

lemma crawl_invD:
  assumes "crawl_inv ev n sp gens hist"
  shows "sorted_wrt (<) (map alloc_id hist)"
    and "\<And>a. a \<in> set hist \<Longrightarrow> alloc_id a < node_ids sp"
    and "nodes (G sp) = alloc_id ` set hist"
    and "\<And>v. length (in_edges (G sp) v) = (if Child v \<in> set hist then 1 else 0)"
    and "\<And>g. g \<in> set gens \<Longrightarrow> this_node_id g \<in> nodes (G sp)"
    and "\<And>v. v |\<in>| replay_node_ids sp \<Longrightarrow> Child v \<in> set hist"
    and "\<And>v. v |\<in>| replay_node_ids sp \<Longrightarrow> \<exists>d. node_attr (G sp) v ''scores'' = Inr (PyScores d)"
    and "replay_N sp = n"
    and "map fst (link_classifiers sp) = map fst (link_classifiers (spider_init ev n))"
  using assms unfolding crawl_inv_def by blast+

lemma crawl_inv_child:
  assumes inv: "crawl_inv ev n sp gens hist" and t: "t \<in> nodes (G sp)"
  shows "crawl_inv ev n
           (sp\<lparr>node_ids := Suc (node_ids sp),
               G := add_edge (add_node (G sp) (node_ids sp) attrs) t (node_ids sp) l\<rparr>)
           gens (hist @ [Child (node_ids sp)])"
proof -
  let ?k = "node_ids sp"
  let ?g1 = "add_node (G sp) ?k attrs"
  let ?g2 = "add_edge ?g1 t ?k l"
  note D = crawl_invD [OF inv]
  have nc: "Child ?k \<notin> set hist" using D(2) [of "Child ?k"] by auto
  with D(4) [of ?k] have e0: "in_edges (G sp) ?k = []" by simp
  then have e1: "in_edges ?g1 ?k = []" by simp
  have kn: "?k \<notin> nodes (G sp)"
  proof
    assume "?k \<in> nodes (G sp)"
    then obtain a where "a \<in> set hist" "alloc_id a = ?k" unfolding D(3) by auto
    with D(2) [of a] show False by simp
  qed
  have t1: "t \<in> nodes ?g1" "?k \<in> nodes ?g1" using t by (simp_all add: nodes_add_node)
  have nodes2: "nodes ?g2 = insert ?k (nodes (G sp))"
    using t by (auto simp: add_edge_new(3) [OF e1] nodes_add_node)
  have edges2: "\<And>m. in_edges ?g2 m = in_edges (G sp) m @ (if m = ?k then [((t, ?k), l)] else [])"
    by (simp add: add_edge_new(2) [OF e1])
  have attr2: "\<And>m key. m \<noteq> ?k \<Longrightarrow> node_attr ?g2 m key = node_attr (G sp) m key"
    by (simp add: node_attr_add_edge [OF t1] node_attr_add_node)
  have replay: "\<And>v. v |\<in>| replay_node_ids sp \<Longrightarrow> v \<noteq> ?k"
    using D(6) nc by auto
  show ?thesis
  proof (rule crawl_invI)
    show "sorted_wrt (<) (map alloc_id (hist @ [Child ?k]))"
      using D(1) D(2) by (auto simp: sorted_wrt_append)
    show "alloc_id a < node_ids (sp\<lparr>node_ids := Suc ?k, G := ?g2\<rparr>)"
      if "a \<in> set (hist @ [Child ?k])" for a
      using that D(2) [of a] by auto
    show "nodes (G (sp\<lparr>node_ids := Suc ?k, G := ?g2\<rparr>)) = alloc_id ` set (hist @ [Child ?k])"
      by (simp add: nodes2 D(3))
    show "length (in_edges (G (sp\<lparr>node_ids := Suc ?k, G := ?g2\<rparr>)) v)
        = (if Child v \<in> set (hist @ [Child ?k]) then 1 else 0)" for v
      using D(4) [of v] nc by (auto simp: edges2)
    show "this_node_id g \<in> nodes (G (sp\<lparr>node_ids := Suc ?k, G := ?g2\<rparr>))"
      if "g \<in> set gens" for g
      using D(5) [OF that] by (simp add: nodes2)
    show "Child v \<in> set (hist @ [Child ?k])"
      if "v |\<in>| replay_node_ids (sp\<lparr>node_ids := Suc ?k, G := ?g2\<rparr>)" for v
      using that D(6) [of v] by simp
    show "\<exists>d. node_attr (G (sp\<lparr>node_ids := Suc ?k, G := ?g2\<rparr>)) v ''scores'' = Inr (PyScores d)"
      if "v |\<in>| replay_node_ids (sp\<lparr>node_ids := Suc ?k, G := ?g2\<rparr>)" for v
      using that D(7) [of v] replay [of v] by (simp add: attr2)
    show "replay_N (sp\<lparr>node_ids := Suc ?k, G := ?g2\<rparr>) = n" using D(8) by simp
    show "map fst (link_classifiers (sp\<lparr>node_ids := Suc ?k, G := ?g2\<rparr>))
        = map fst (link_classifiers (spider_init ev n))" using D(9) by simp
  qed
qed

lemma crawl_inv_next:
  assumes inv: "crawl_inv ev n sp gens hist" and t: "this_node_id gen \<in> nodes (G sp)"
  shows "generate_next sp gen = Inl (err, sp') \<Longrightarrow> sp' = sp"
    and "generate_next sp gen = Inr (sp', None) \<Longrightarrow> sp' = sp"
    and "generate_next sp gen = Inr (sp', Some (gen', req)) \<Longrightarrow>
           crawl_inv ev n sp' gens (hist @ [Child (req_node_id req)]) \<and>
           this_node_id gen' = this_node_id gen \<and> req_node_id req = node_ids sp"
proof -
  show "sp' = sp" if "generate_next sp gen = Inl (err, sp')"
    using that unfolding generate_next_cases by (auto split: list.splits option.splits)
  show "sp' = sp" if "generate_next sp gen = Inr (sp', None)"
    using that unfolding generate_next_cases by (auto split: list.splits option.splits)
  show "crawl_inv ev n sp' gens (hist @ [Child (req_node_id req)]) \<and>
           this_node_id gen' = this_node_id gen \<and> req_node_id req = node_ids sp"
    if a: "generate_next sp gen = Inr (sp', Some (gen', req))"
  proof -
    from a obtain p rest u where "todo gen = p # rest" "map_of (fst p) ''url'' = Some u"
      unfolding generate_next_cases by (auto split: list.splits option.splits)
    with a have sp': "sp' = sp\<lparr>node_ids := Suc (node_ids sp),
                       G := add_edge (add_node (G sp) (node_ids sp)
                          [(''url'', PyStr u),
                           (''visited'', PyBool False),
                           (''ok'', PyNone),
                           (''scores'', PyNone),
                           (''response_id'', PyNone),
                           (''predicted_scores'', PyScores (snd p))])
                          (this_node_id gen) (node_ids sp) (fst p)\<rparr>"
      and g: "gen' = gen\<lparr>todo := rest\<rparr>"
      and r: "req = \<lparr>req_url = u, req_node_id = node_ids sp, req_domain = gen_domain gen\<rparr>"
      unfolding generate_next_cases by simp_all
    have k: "req_node_id req = node_ids sp" by (simp add: r)
    show ?thesis
      unfolding k sp' using crawl_inv_child [OF inv t] by (simp add: g)
  qed
qed

lemma crawl_inv_nodes_mono:
  assumes "crawl_inv ev n sp gens hist" "crawl_inv ev n sp' gens' (hist @ h)"
  shows "nodes (G sp) \<subseteq> nodes (G sp')"
  using assms by (auto simp: crawl_inv_def)

lemma crawl_inv_dropped:
  assumes inv: "crawl_inv ev n sp gens hist"
    and known: "case m of None \<Rightarrow> True | Some k \<Rightarrow> Child k \<in> set hist"
  shows "crawl_inv ev n (on_offdomain_request_dropped ev sp m) gens hist"
proof (cases m)
  case None
  then show ?thesis using inv by (simp add: on_offdomain_request_dropped_def)
next
  case (Some k)
  show ?thesis
  proof (cases "k = 0")
    case True
    then show ?thesis using inv Some by (simp add: on_offdomain_request_dropped_def)
  next
    case False
    from known Some have c: "Child k \<in> set hist" by simp
    note D = crawl_invD [OF inv]
    from c have kn: "k \<in> nodes (G sp)" unfolding D(3) by force
    let ?sp = "on_offdomain_request_dropped ev sp m"
    have g: "G ?sp = add_node (G sp) k
                     [(''visited'', PyBool True),
                      (''ok'', PyBool False),
                      (''scores'', PyScores (get_constant_scores ev 0)),
                      (''response_id'', PyInt (response_count sp))]"
      and rp: "replay_node_ids ?sp = finsert k (replay_node_ids sp)"
      and rest: "node_ids ?sp = node_ids sp" "replay_N ?sp = replay_N sp"
        "link_classifiers ?sp = link_classifiers sp"
      using False by (simp_all add: Some on_offdomain_request_dropped_def)
    have nd: "nodes (G ?sp) = nodes (G sp)" using kn by (simp add: g nodes_add_node insert_absorb)
    show ?thesis
    proof (rule crawl_invI)
      show "sorted_wrt (<) (map alloc_id hist)" by (rule D(1))
      show "alloc_id a < node_ids ?sp" if "a \<in> set hist" for a
        using D(2) [OF that] rest by simp
      show "nodes (G ?sp) = alloc_id ` set hist" using D(3) nd by simp
      show "length (in_edges (G ?sp) v) = (if Child v \<in> set hist then 1 else 0)" for v
        using D(4) [of v] by (simp add: g)
      show "this_node_id gg \<in> nodes (G ?sp)" if "gg \<in> set gens" for gg
        using D(5) [OF that] nd by simp
      show "Child v \<in> set hist" if "v |\<in>| replay_node_ids ?sp" for v
        using that D(6) [of v] c by (auto simp: rp)
      show "\<exists>d. node_attr (G ?sp) v ''scores'' = Inr (PyScores d)"
        if "v |\<in>| replay_node_ids ?sp" for v
        using that D(7) [of v] by (auto simp: rp g node_attr_add_node)
      show "replay_N ?sp = n" using D(8) rest by simp
      show "map fst (link_classifiers ?sp) = map fst (link_classifiers (spider_init ev n))"
        using D(9) rest by simp
    qed
  qed
qed

lemma crawl_inv_rescore:
  assumes inv: "crawl_inv ev n sp gens hist"
  shows "recalculate_link_scores ev sp active = Inr (sp', called) \<Longrightarrow> crawl_inv ev n sp' gens hist"
    and "recalculate_link_scores ev sp active = Inl (err, sp') \<Longrightarrow> crawl_inv ev n sp' gens hist"
proof -
  show "crawl_inv ev n sp' gens hist" if "recalculate_link_scores ev sp active = Inl (err, sp')"
  proof -
    from that have "recalculate_link_scores' ev sp (Some (max 500 (int (len_ms (domain_scores sp))))) active
        = Inl (err, sp')"
      by (simp add: recalculate_link_scores_def)
    from recalculate_raises [OF this] inv show ?thesis by simp
  qed
  show "crawl_inv ev n sp' gens hist" if "recalculate_link_scores ev sp active = Inr (sp', called)"
  proof -
    from that have "recalculate_link_scores' ev sp (Some (max 500 (int (len_ms (domain_scores sp))))) active
        = Inr (sp', called)"
      by (simp add: recalculate_link_scores_def)
    note f = recalculate_frame [OF this]
    from f have k: "map fst (node (G sp')) = map fst (node (G sp))" by simp
    have "nodes (G sp') = set (map fst (node (G sp')))" by (simp add: nodes_conv)
    also have "\<dots> = nodes (G sp)" unfolding k by (simp add: nodes_conv)
    finally have nd: "nodes (G sp') = nodes (G sp)" .
    from f have ed: "\<And>v. in_edges (G sp') v = in_edges (G sp) v" by (simp add: in_edges_def)
    from f have at: "\<And>v. node_attr (G sp') v ''scores'' = node_attr (G sp) v ''scores''" by simp
    note D = crawl_invD [OF inv]
    show ?thesis
    proof (rule crawl_invI)
      show "sorted_wrt (<) (map alloc_id hist)" by (rule D(1))
      show "alloc_id a < node_ids sp'" if "a \<in> set hist" for a
        using D(2) [OF that] f by simp
      show "nodes (G sp') = alloc_id ` set hist" using D(3) nd by simp
      show "length (in_edges (G sp') v) = (if Child v \<in> set hist then 1 else 0)" for v
        using D(4) [of v] ed by simp
      show "this_node_id g \<in> nodes (G sp')" if "g \<in> set gens" for g
        using D(5) [OF that] nd by simp
      show "Child v \<in> set hist" if "v |\<in>| replay_node_ids sp'" for v
        using that D(6) [of v] f by simp
      show "\<exists>d. node_attr (G sp') v ''scores'' = Inr (PyScores d)"
        if "v |\<in>| replay_node_ids sp'" for v
        using that D(7) [of v] f at by simp
      show "replay_N sp' = n" using D(8) f by simp
      show "map fst (link_classifiers sp') = map fst (link_classifiers (spider_init ev n))"
        using D(9) f by simp
    qed
  qed
qed

lemma core_nodes: "core sp' = core sp \<Longrightarrow> nodes (G sp') = nodes (G sp)"
  by (simp add: core_def)

lemma crawl_inv_step:
  assumes inv: "crawl_inv ev n (spider w) (running w) (allocated w)"
    and s: "step ev w e = Some w'"
  shows "crawl_inv ev n (spider w') (running w') (allocated w')"
proof (cases e)
  case (Response r smp links)
  obtain sp2 nid where u: "update_response_node ev (increase_response_count (spider w)) r = (sp2, nid)"
    by (cases "update_response_node ev (increase_response_count (spider w)) r")
  let ?hist = "case meta_node_id r of
                 None \<Rightarrow> allocated w @ [Seed (node_ids (spider w))]
               | Some k \<Rightarrow> allocated w"
  from s have known: "known_node_id w (meta_node_id r)"
    by (simp add: Response step_def Let_def split: if_splits)
  then have "case meta_node_id r of None \<Rightarrow> True | Some k \<Rightarrow> Child k \<in> set (allocated w)"
    by (simp add: known_node_id_def)
  from crawl_inv_visit [OF inv this u]
  have i2: "crawl_inv ev n sp2 (running w) ?hist" and nd: "nid \<in> nodes (G sp2)" by simp_all
  from s have w': "Some w' =
      (case parse ev (spider w) r smp links of
         Inl (err, sp') \<Rightarrow> Some (w\<lparr>spider := sp', allocated := ?hist\<rparr>)
       | Inr (sp', None) \<Rightarrow> Some (w\<lparr>spider := sp', allocated := ?hist\<rparr>)
       | Inr (sp', Some gen) \<Rightarrow>
           Some (w\<lparr>spider := sp', running := running w @ [gen], allocated := ?hist\<rparr>))"
    by (simp add: Response step_def Let_def split: if_splits)
  show ?thesis
  proof (cases "parse ev (spider w) r smp links")
    case (Inl p)
    obtain err sp' where p: "p = (err, sp')" by (cases p)
    from parse_core(1) [OF u] Inl p have c: "core sp' = core sp2" by simp
    from w' Inl p have "w' = w\<lparr>spider := sp', allocated := ?hist\<rparr>" by simp
    then show ?thesis using i2 by (simp add: crawl_inv_core [OF c])
  next
    case (Inr p)
    obtain sp' gen where p: "p = (sp', gen)" by (cases p)
    from parse_core(2) [OF u] Inr p
    have c: "core sp' = core sp2" and g: "\<forall>g. gen = Some g \<longrightarrow> this_node_id g = nid"
      by simp_all
    show ?thesis
    proof (cases gen)
      case None
      with w' Inr p have "w' = w\<lparr>spider := sp', allocated := ?hist\<rparr>" by simp
      then show ?thesis using i2 by (simp add: crawl_inv_core [OF c])
    next
      case (Some gn)
      with w' Inr p have e: "w' = w\<lparr>spider := sp', running := running w @ [gn], allocated := ?hist\<rparr>"
        by simp
      from g Some have "this_node_id gn = nid" by simp
      with nd crawl_invD(5) [OF i2]
      have "\<forall>g \<in> set (running w @ [gn]). this_node_id g \<in> nodes (G sp2)" by auto
      from crawl_inv_gens [OF i2 this] show ?thesis by (simp add: e crawl_inv_core [OF c])
    qed
  qed
next
  case (Next i)
  from s have i: "i < length (running w)"
    by (simp add: Next step_def split: if_splits)
  let ?gen = "running w ! i"
  from i have gm: "?gen \<in> set (running w)" by simp
  with crawl_invD(5) [OF inv] have t: "this_node_id ?gen \<in> nodes (G (spider w))" by simp
  note N = crawl_inv_next [OF inv t]
  from s i have w': "Some w' =
      (case generate_next (spider w) ?gen of
         Inl (err, sp') \<Rightarrow>
           Some (w\<lparr>spider := sp', running := take i (running w) @ drop (Suc i) (running w)\<rparr>)
       | Inr (sp', None) \<Rightarrow>
           Some (w\<lparr>spider := sp', running := take i (running w) @ drop (Suc i) (running w)\<rparr>)
       | Inr (sp', Some (gen, req)) \<Rightarrow>
           Some (w\<lparr>spider := sp', running := (running w)[i := gen],
                   allocated := allocated w @ [Child (req_node_id req)]\<rparr>))"
    by (simp add: Next step_def)
  have sub: "\<forall>g \<in> set (take i (running w) @ drop (Suc i) (running w)).
      this_node_id g \<in> nodes (G (spider w))"
    using crawl_invD(5) [OF inv] by (auto dest: in_set_takeD in_set_dropD)
  show ?thesis
  proof (cases "generate_next (spider w) ?gen")
    case (Inl p)
    obtain err sp' where p: "p = (err, sp')" by (cases p)
    from N(1) Inl p have "sp' = spider w" by simp
    with w' Inl p have "w' = w\<lparr>running := take i (running w) @ drop (Suc i) (running w)\<rparr>"
      by simp
    then show ?thesis using crawl_inv_gens [OF inv sub] by simp
  next
    case (Inr p)
    obtain sp' res where p: "p = (sp', res)" by (cases p)
    show ?thesis
    proof (cases res)
      case None
      from N(2) Inr p None have "sp' = spider w" by simp
      with w' Inr p None have "w' = w\<lparr>running := take i (running w) @ drop (Suc i) (running w)\<rparr>"
        by simp
      then show ?thesis using crawl_inv_gens [OF inv sub] by simp
    next
      case (Some q)
      obtain gen req where q: "q = (gen, req)" by (cases q)
      from Inr p Some q have "generate_next (spider w) ?gen = Inr (sp', Some (gen, req))"
        by simp
      from N(3) [OF this]
      have i': "crawl_inv ev n sp' (running w) (allocated w @ [Child (req_node_id req)])"
        and tg: "this_node_id gen = this_node_id ?gen" by blast+
      from w' Inr p Some q have e: "w' = w\<lparr>spider := sp', running := (running w)[i := gen],
                   allocated := allocated w @ [Child (req_node_id req)]\<rparr>" by simp
      have "this_node_id g \<in> nodes (G sp')" if "g \<in> set ((running w)[i := gen])" for g
      proof -
        from that have "g = gen \<or> g \<in> set (running w)"
          using set_update_subset_insert [of "running w" i gen] by auto
        then have "this_node_id g \<in> this_node_id ` set (running w)"
          using tg gm by force
        then show ?thesis using crawl_invD(5) [OF i'] by auto
      qed
      then have "\<forall>g \<in> set ((running w)[i := gen]). this_node_id g \<in> nodes (G sp')" by simp
      from crawl_inv_gens [OF i' this] show ?thesis by (simp add: e)
    qed
  qed
next
  case (Dropped m)
  from s have known: "known_node_id w m"
    and e: "w' = w\<lparr>spider := on_offdomain_request_dropped ev (spider w) m\<rparr>"
    by (auto simp: Dropped step_def split: if_splits)
  from known have "case m of None \<Rightarrow> True | Some k \<Rightarrow> Child k \<in> set (allocated w)"
    by (simp add: known_node_id_def)
  from crawl_inv_dropped [OF inv this] show ?thesis by (simp add: e)
next
  case (Rescore active)
  show ?thesis
  proof (cases "recalculate_link_scores ev (spider w) active")
    case (Inl p)
    obtain err sp' where p: "p = (err, sp')" by (cases p)
    from s Inl p have e: "w' = w\<lparr>spider := sp'\<rparr>" by (simp add: Rescore step_def)
    from crawl_inv_rescore(2) [OF inv] Inl p show ?thesis by (simp add: e)
  next
    case (Inr p)
    obtain sp' called where p: "p = (sp', called)" by (cases p)
    from s Inr p have e: "w' = w\<lparr>spider := sp'\<rparr>" by (simp add: Rescore step_def)
    from crawl_inv_rescore(1) [OF inv] Inr p show ?thesis by (simp add: e)
  qed
qed

lemma crawl_inv_run:
  "crawl_inv ev n (spider w) (running w) (allocated w) \<Longrightarrow> run ev w es = Some w' \<Longrightarrow>
   crawl_inv ev n (spider w') (running w') (allocated w')"
proof (induction es arbitrary: w)
  case Nil
  then show ?case by simp
next
  case (Cons e es)
  from Cons.prems(2) obtain w1 where s: "step ev w e = Some w1" and r: "run ev w1 es = Some w'"
    by (auto split: option.splits)
  from crawl_inv_step [OF Cons.prems(1) s] have "crawl_inv ev n (spider w1) (running w1) (allocated w1)" .
  from Cons.IH [OF this r] show ?case .
qed

lemma crawl_inv_reachable:
  assumes "reachable ev n w"
  shows "crawl_inv ev n (spider w) (running w) (allocated w)"
proof -
  from assms obtain es where r: "run ev (world_init ev n) es = Some w"
    by (auto simp: reachable_def)
  have "crawl_inv ev n (spider (world_init ev n)) (running (world_init ev n)) (allocated (world_init ev n))"
    by (simp add: world_init_def crawl_inv_init)
  from crawl_inv_run [OF this r] show ?thesis .
qed

section \<open>Node ids and the shape of the graph\<close>

lemma step_allocated:
  assumes "step ev w e = Some w'"
  shows "\<exists>h. allocated w' = allocated w @ h"
proof (cases e)
  case (Response r smp links)
  with assms show ?thesis
    by (cases "meta_node_id r")
      (auto simp: step_def Let_def split: if_splits sum.splits prod.splits option.splits)
next
  case (Next i)
  with assms show ?thesis
    by (auto simp: step_def Let_def split: if_splits sum.splits prod.splits option.splits)
next
  case (Dropped m)
  with assms show ?thesis by (auto simp: step_def split: if_splits)
next
  case (Rescore active)
  with assms show ?thesis by (auto simp: step_def split: sum.splits prod.splits)
qed

lemma sorted_ids_inj:
  assumes "sorted_wrt (<) (map alloc_id hist)" "a \<in> set hist" "b \<in> set hist"
    "alloc_id a = alloc_id b"
  shows "a = b"
proof -
  from assms(1) have "distinct (map alloc_id hist)"
    using strict_sorted_iff by blast
  then have "inj_on alloc_id (set hist)" by (simp add: distinct_map)
  with assms(2-4) show ?thesis by (auto dest: inj_onD)
qed

text \<open>
  C9.  In every world of a crawl, whatever the order of the events, the ids that
  \<open>next(self.node_ids)\<close> has handed out, to seed responses and to the nodes of extracted
  links alike, are strictly increasing in the order of their allocation, hence pairwise
  distinct; all of them lie below the counter, so that the next id is larger than every
  earlier one; the nodes of the graph are exactly the allocated ids, and the next id is
  not a node yet.  An event only appends to the history of allocations.
\<close>

theorem node_ids_strictly_increasing:
  "reachable ev n w \<longrightarrow>
     sorted_wrt (<) (map alloc_id (allocated w)) \<and>
     distinct (map alloc_id (allocated w)) \<and>
     (\<forall>a \<in> set (allocated w). alloc_id a < node_ids (spider w)) \<and>
     nodes (G (spider w)) = alloc_id ` set (allocated w) \<and>
     node_ids (spider w) \<notin> nodes (G (spider w)) \<and>
     (\<forall>e w'. step ev w e = Some w' \<longrightarrow>
        (\<exists>h. allocated w' = allocated w @ h) \<and>
        sorted_wrt (<) (map alloc_id (allocated w')))"
proof
  assume r: "reachable ev n w"
  note D = crawl_invD [OF crawl_inv_reachable [OF r]]
  have 1: "sorted_wrt (<) (map alloc_id (allocated w))" by (rule D(1))
  then have 2: "distinct (map alloc_id (allocated w))" using strict_sorted_iff by blast
  have 3: "\<forall>a \<in> set (allocated w). alloc_id a < node_ids (spider w)" using D(2) by blast
  have 4: "nodes (G (spider w)) = alloc_id ` set (allocated w)" by (rule D(3))
  have 5: "node_ids (spider w) \<notin> nodes (G (spider w))" unfolding 4 using 3 by auto
  have 6: "\<forall>e w'. step ev w e = Some w' \<longrightarrow>
        (\<exists>h. allocated w' = allocated w @ h) \<and>
        sorted_wrt (<) (map alloc_id (allocated w'))"
  proof (intro allI impI)
    fix e w'
    assume s: "step ev w e = Some w'"
    from reachable_step [OF r s] have "reachable ev n w'" .
    from crawl_invD(1) [OF crawl_inv_reachable [OF this]] step_allocated [OF s]
    show "(\<exists>h. allocated w' = allocated w @ h) \<and>
        sorted_wrt (<) (map alloc_id (allocated w'))" by simp
  qed
  from 1 2 3 4 5 6 show "sorted_wrt (<) (map alloc_id (allocated w)) \<and>
     distinct (map alloc_id (allocated w)) \<and>
     (\<forall>a \<in> set (allocated w). alloc_id a < node_ids (spider w)) \<and>
     nodes (G (spider w)) = alloc_id ` set (allocated w) \<and>
     node_ids (spider w) \<notin> nodes (G (spider w)) \<and>
     (\<forall>e w'. step ev w e = Some w' \<longrightarrow>
        (\<exists>h. allocated w' = allocated w @ h) \<and>
        sorted_wrt (<) (map alloc_id (allocated w')))"
    by (intro conjI)
qed

theorem node_ids_strictly_increasing_witness:
  "reachable ev_ex 1 w_ex \<and>
   allocated w_ex = [Seed 0, Child 1, Child 2] \<and>
   sorted_wrt (<) (map alloc_id (allocated w_ex)) \<and>
   nodes (G (spider w_ex)) = {0, 1, 2} \<and>
   node_ids (spider w_ex) = 3"
proof -
  have a: "allocated w_ex = [Seed 0, Child 1, Child 2]" by (simp add: w_ex_def)
  note t = node_ids_strictly_increasing [THEN mp, OF reachable_w_ex]
  have s: "sorted_wrt (<) (map alloc_id (allocated w_ex))" by (rule t [THEN conjunct1])
  have "nodes (G (spider w_ex)) = alloc_id ` set (allocated w_ex)"
    by (rule t [THEN conjunct2, THEN conjunct2, THEN conjunct2, THEN conjunct1])
  then have nd: "nodes (G (spider w_ex)) = {0, 1, 2}" unfolding a by simp
  have k: "node_ids (spider w_ex) = 3" by (simp add: w_ex_def)
  show ?thesis by (intro conjI) (rule reachable_w_ex a s nd k)+
qed

text \<open>
  C8.  In every world of a crawl, whatever the sequence of visits, dropped requests and
  re-scoring passes: a node allocated for a seed response has no predecessor, a node
  allocated for an extracted link has exactly one, and every node of the graph is one or
  the other (never both).  A re-scoring pass that returns leaves the edges as they are.
\<close>

theorem crawl_graph_is_forest:
  "reachable ev n w \<longrightarrow>
     (\<forall>v. Seed v \<in> set (allocated w) \<longrightarrow> predecessors_iter (G (spider w)) v = Inr []) \<and>
     (\<forall>v. Child v \<in> set (allocated w) \<longrightarrow>
        (\<exists>u. predecessors_iter (G (spider w)) v = Inr [u]) \<and> Seed v \<notin> set (allocated w)) \<and>
     (\<forall>v. v \<in> nodes (G (spider w)) \<longrightarrow>
        Seed v \<in> set (allocated w) \<or> Child v \<in> set (allocated w)) \<and>
     (\<forall>active sp' called. recalculate_link_scores ev (spider w) active = Inr (sp', called) \<longrightarrow>
        edge (G sp') = edge (G (spider w)))"
proof
  assume r: "reachable ev n w"
  note D = crawl_invD [OF crawl_inv_reachable [OF r]]
  have excl: "Child v \<notin> set (allocated w)" if "Seed v \<in> set (allocated w)" for v
  proof
    assume "Child v \<in> set (allocated w)"
    from sorted_ids_inj [OF D(1) that this] show False by simp
  qed
  have 1: "\<forall>v. Seed v \<in> set (allocated w) \<longrightarrow> predecessors_iter (G (spider w)) v = Inr []"
  proof (intro allI impI)
    fix v assume s: "Seed v \<in> set (allocated w)"
    then have "v \<in> nodes (G (spider w))" unfolding D(3) by force
    moreover from D(4) [of v] excl [OF s] have "in_edges (G (spider w)) v = []" by simp
    ultimately show "predecessors_iter (G (spider w)) v = Inr []"
      by (simp add: predecessors_iter_Inr)
  qed
  have 2: "\<forall>v. Child v \<in> set (allocated w) \<longrightarrow>
        (\<exists>u. predecessors_iter (G (spider w)) v = Inr [u]) \<and> Seed v \<notin> set (allocated w)"
  proof (intro allI impI)
    fix v assume c: "Child v \<in> set (allocated w)"
    then have nd: "v \<in> nodes (G (spider w))" unfolding D(3) by force
    from D(4) [of v] c have "length (in_edges (G (spider w)) v) = 1" by simp
    then obtain e where "in_edges (G (spider w)) v = [e]"
      by (cases "in_edges (G (spider w)) v") auto
    with nd have "predecessors_iter (G (spider w)) v = Inr [fst (fst e)]"
      by (simp add: predecessors_iter_Inr)
    moreover from excl c have "Seed v \<notin> set (allocated w)" by blast
    ultimately show "(\<exists>u. predecessors_iter (G (spider w)) v = Inr [u]) \<and>
        Seed v \<notin> set (allocated w)" by blast
  qed
  have 3: "\<forall>v. v \<in> nodes (G (spider w)) \<longrightarrow>
        Seed v \<in> set (allocated w) \<or> Child v \<in> set (allocated w)"
  proof (intro allI impI)
    fix v assume "v \<in> nodes (G (spider w))"
    then obtain a where a: "a \<in> set (allocated w)" "alloc_id a = v" unfolding D(3) by auto
    show "Seed v \<in> set (allocated w) \<or> Child v \<in> set (allocated w)"
    proof (cases a)
      case (Seed k)
      with a show ?thesis by auto
    next
      case (Child k)
      with a show ?thesis by auto
    qed
  qed
  have 4: "\<forall>active sp' called. recalculate_link_scores ev (spider w) active = Inr (sp', called) \<longrightarrow>
        edge (G sp') = edge (G (spider w))"
    using recalculate_frame by (simp add: recalculate_link_scores_def)
  from 1 2 3 4 show "(\<forall>v. Seed v \<in> set (allocated w) \<longrightarrow> predecessors_iter (G (spider w)) v = Inr []) \<and>
     (\<forall>v. Child v \<in> set (allocated w) \<longrightarrow>
        (\<exists>u. predecessors_iter (G (spider w)) v = Inr [u]) \<and> Seed v \<notin> set (allocated w)) \<and>
     (\<forall>v. v \<in> nodes (G (spider w)) \<longrightarrow>
        Seed v \<in> set (allocated w) \<or> Child v \<in> set (allocated w)) \<and>
     (\<forall>active sp' called. recalculate_link_scores ev (spider w) active = Inr (sp', called) \<longrightarrow>
        edge (G sp') = edge (G (spider w)))"
    by (intro conjI)
qed

theorem crawl_graph_is_forest_witness:
  "reachable ev_ex 1 w_ex1 \<and>
   Seed 0 \<in> set (allocated w_ex1) \<and> Child 2 \<in> set (allocated w_ex1) \<and>
   predecessors_iter (G (spider w_ex1)) 0 = Inr [] \<and>
   predecessors_iter (G (spider w_ex1)) 2 = Inr [0]"
proof -
  have s: "Seed 0 \<in> set (allocated w_ex1)" and c: "Child 2 \<in> set (allocated w_ex1)"
    by (simp_all add: w_ex1_def)
  note t = crawl_graph_is_forest [THEN mp, OF reachable_w_ex1]
  have p0: "predecessors_iter (G (spider w_ex1)) 0 = Inr []"
    by (rule t [THEN conjunct1, rule_format, OF s])
  from t [THEN conjunct2, THEN conjunct1, rule_format, OF c]
  obtain u where "predecessors_iter (G (spider w_ex1)) 2 = Inr [u]" by blast
  moreover have "predecessors_iter (G (spider w_ex1)) 2 = Inr [0]" by code_simp
  ultimately have p2: "predecessors_iter (G (spider w_ex1)) 2 = Inr [0]" by simp
  show ?thesis by (intro conjI) (rule reachable_w_ex1 s c p0 p2)+
qed

section \<open>The scores returned for a list of links\<close>

lemma reachable_classifiers:
  assumes "reachable ev n w"
  shows "distinct (map fst (link_classifiers (spider w)))"
    and "fst ` set (link_classifiers (spider w)) = set (available_form_types ev)"
proof -
  from crawl_invD(9) [OF crawl_inv_reachable [OF assms]]
  have k: "map fst (link_classifiers (spider w)) = map fst (link_classifiers (spider_init ev n))" .
  show "distinct (map fst (link_classifiers (spider w)))"
    unfolding k by (rule init_classifiers)
  have "fst ` set (link_classifiers (spider w)) = set (map fst (link_classifiers (spider w)))"
    by simp
  also have "\<dots> = dom (map_of (link_classifiers (spider_init ev n)))"
    unfolding k by (simp add: dom_map_of_conv_image_fst)
  also have "\<dots> = set (available_form_types ev)"
    by (auto simp: init_classifiers(2) dom_def)
  finally show "fst ` set (link_classifiers (spider w)) = set (available_form_types ev)" .
qed

text \<open>
  C10.  In every world of a crawl, with a vectorizer and classifiers that answer with one
  row per link: \<open>get_link_scores\<close> returns a list as long as the list of links; the
  \<open>i\<close>-th dictionary has exactly the form types the spider was constructed with as its
  keys, and under the form type of a classifier it has 0.5 if the classifier is not
  fitted and the \<open>i\<close>-th probability of the classifier otherwise.  For the empty list
  the result is the empty list.
\<close>

theorem get_link_scores_shape:
  "reachable ev n w \<and>
   (\<forall>c X. length (predict_proba ev c X) = length X) \<and>
   (\<forall>ls. length (transform ev ls) = length ls) \<longrightarrow>
     length (get_link_scores ev (spider w) links) = length links \<and>
     (\<forall>i < length links.
        fst ` set (get_link_scores ev (spider w) links ! i) = set (available_form_types ev)) \<and>
     (\<forall>i < length links. \<forall>ft c. map_of (link_classifiers (spider w)) ft = Some c \<longrightarrow>
        map_of (get_link_scores ev (spider w) links ! i) ft =
          Some (if coef c = None then 0.5 else predict_proba ev c (transform ev links) ! i)) \<and>
     get_link_scores ev (spider w) [] = []"
proof
  assume a: "reachable ev n w \<and>
   (\<forall>c X. length (predict_proba ev c X) = length X) \<and>
   (\<forall>ls. length (transform ev ls) = length ls)"
  then have r: "reachable ev n w"
    and len: "\<And>c. length (predict_proba ev c (transform ev links)) = length links"
    by simp_all
  note cl = reachable_classifiers [OF r]
  have val: "map_of (get_link_scores ev (spider w) links ! i) ft =
      (case map_of (link_classifiers (spider w)) ft of
         None \<Rightarrow> None
       | Some c \<Rightarrow> Some (if coef c = None then 0.5 else predict_proba ev c (transform ev links) ! i))"
    if "i < length links" for i ft
    using get_link_scores_nth [OF that cl(1), of ev ft] that len
    by (simp split: option.splits)
  have 1: "length (get_link_scores ev (spider w) links) = length links"
    by (rule get_link_scores_length)
  have 2: "\<forall>i < length links.
        fst ` set (get_link_scores ev (spider w) links ! i) = set (available_form_types ev)"
  proof (intro allI impI)
    fix i assume i: "i < length links"
    have "dom (map_of (get_link_scores ev (spider w) links ! i)) = dom (map_of (link_classifiers (spider w)))"
      by (auto simp: dom_def val [OF i] split: option.splits)
    then show "fst ` set (get_link_scores ev (spider w) links ! i) = set (available_form_types ev)"
      by (simp add: dom_map_of_conv_image_fst cl(2))
  qed
  have 3: "\<forall>i < length links. \<forall>ft c. map_of (link_classifiers (spider w)) ft = Some c \<longrightarrow>
        map_of (get_link_scores ev (spider w) links ! i) ft =
          Some (if coef c = None then 0.5 else predict_proba ev c (transform ev links) ! i)"
    by (simp add: val)
  have 4: "get_link_scores ev (spider w) [] = []" by (simp add: get_link_scores_def)
  from 1 2 3 4 show "length (get_link_scores ev (spider w) links) = length links \<and>
     (\<forall>i < length links.
        fst ` set (get_link_scores ev (spider w) links ! i) = set (available_form_types ev)) \<and>
     (\<forall>i < length links. \<forall>ft c. map_of (link_classifiers (spider w)) ft = Some c \<longrightarrow>
        map_of (get_link_scores ev (spider w) links ! i) ft =
          Some (if coef c = None then 0.5 else predict_proba ev c (transform ev links) ! i)) \<and>
     get_link_scores ev (spider w) [] = []"
    by (intro conjI)
qed

theorem get_link_scores_shape_witness:
  "reachable ev_ex 1 w_ex1 \<and>
   length (get_link_scores ev_ex (spider w_ex1) [link_ex ''u1'', link_ex ''u2'']) = 2 \<and>
   fst ` set (get_link_scores ev_ex (spider w_ex1) [link_ex ''u1'', link_ex ''u2''] ! 1)
     = {''a'', ''b''} \<and>
   get_link_scores ev_ex (spider w_ex1) [link_ex ''u1'', link_ex ''u2'']
     = [[(''a'', 7 / 10), (''b'', 7 / 10)], [(''a'', 7 / 10), (''b'', 7 / 10)]]"
proof -
  let ?ls = "[link_ex ''u1'', link_ex ''u2'']"
  have h: "reachable ev_ex 1 w_ex1 \<and>
     (\<forall>c X. length (predict_proba ev_ex c X) = length X) \<and>
     (\<forall>ls. length (transform ev_ex ls) = length ls)"
    using reachable_w_ex1 by (simp add: ev_ex_def)
  note t = get_link_scores_shape [THEN mp, OF h, of ?ls]
  from t have l: "length (get_link_scores ev_ex (spider w_ex1) ?ls) = 2" by simp
  from t have "\<forall>i < length ?ls.
      fst ` set (get_link_scores ev_ex (spider w_ex1) ?ls ! i) = set (available_form_types ev_ex)"
    by (rule conjunct2 [THEN conjunct1])
  then have "fst ` set (get_link_scores ev_ex (spider w_ex1) ?ls ! 1) = set (available_form_types ev_ex)"
    by simp
  then have k: "fst ` set (get_link_scores ev_ex (spider w_ex1) ?ls ! 1) = {''a'', ''b''}"
    by (simp add: ev_ex_def)
  have v: "get_link_scores ev_ex (spider w_ex1) ?ls
     = [[(''a'', 7 / 10), (''b'', 7 / 10)], [(''a'', 7 / 10), (''b'', 7 / 10)]]"
    by code_simp
  show ?thesis by (intro conjI) (rule reachable_w_ex1 l k v)+
qed

section \<open>The replay sample of a visit\<close>

lemma random_sample_of_ok:
  assumes "random_sample_ok population k smp"
  shows "random_sample population k smp = Inr smp"
proof -
  from assms have d: "distinct smp" and s: "fset_of_list smp |\<subseteq>| population"
    and l: "int (length smp) = k"
    by (simp_all add: random_sample_ok_def)
  from s have m: "\<And>i. i \<in> set smp \<Longrightarrow> i |\<in>| population"
    by (auto simp: fset_of_list_elem)
  have "fcard (fset_of_list smp) \<le> fcard population" using s by (rule fcard_mono)
  moreover have "fcard (fset_of_list smp) = length smp"
    using d by (simp add: fcard.rep_eq fset_of_list.rep_eq distinct_card)
  ultimately have "k \<le> int (fcard population)" using l by simp
  moreover have "filter (\<lambda>i. i |\<in>| population) (remdups smp) = smp"
    using d m by (simp add: distinct_remdups_id filter_id_conv)
  ultimately show ?thesis using l by (auto simp: random_sample_def)
qed

lemma random_sample_is_ok:
  assumes "random_sample population k choice = Inr smp"
  shows "random_sample_ok population k smp"
proof -
  let ?a = "filter (\<lambda>i. i |\<in>| population) (remdups choice)"
  let ?b = "filter (\<lambda>i. i \<notin> set choice) (sorted_list_of_fset population)"
  from assms have k: "0 \<le> k" "k \<le> int (fcard population)" and smp: "smp = take (nat k) (?a @ ?b)"
    by (auto simp: random_sample_def split: if_splits)
  have da: "distinct ?a" by simp
  have db: "distinct ?b" by (simp add: sorted_list_of_fset.rep_eq)
  have dis: "set ?a \<inter> set ?b = {}" by auto
  have d: "distinct (?a @ ?b)" using da db dis by simp
  have st: "set (?a @ ?b) = fset population" by auto
  have "length (?a @ ?b) = card (set (?a @ ?b))" using d by (simp add: distinct_card del: set_append)
  also have "\<dots> = fcard population" unfolding st by (simp add: fcard.rep_eq)
  finally have len: "length (?a @ ?b) = fcard population" .
  have 1: "distinct smp" unfolding smp using d by (rule distinct_take)
  have 2: "set smp \<subseteq> fset population"
    unfolding smp using st set_take_subset [of "nat k" "?a @ ?b"] by blast
  have 3: "int (length smp) = k" unfolding smp using k len by simp
  from 1 2 3 show ?thesis
    by (auto simp: random_sample_ok_def fset_of_list_elem)
qed

lemma run_es_rec: "run ev_rec (world_init ev_rec 1) es_rec = Some w_rec"
  by code_simp

lemma reachable_w_rec: "reachable ev_rec 1 w_rec"
  unfolding reachable_def using run_es_rec by blast

text \<open>
  C2, on the code.  In the crawl with the recording classifiers and \<open>replay_N = 1\<close>, node
  \<open>1\<close> has been visited and node \<open>2\<close> has not: the replay set is \<open>{1}\<close> and each classifier
  has seen the one row of node \<open>1\<close> (url length 10).  The response for node \<open>2\<close> arrives
  and the random choice prefers the id \<open>2\<close>.  \<open>parse\<close> puts \<open>2\<close> into the replay set and
  only then trains: the one training call of this visit gets two rows, both the link of
  node \<open>2\<close> itself (url length 11) with the labels of node \<open>2\<close>.  The replay sample of
  the visit is \<open>[2]\<close>, an id that no earlier visit has inserted.
\<close>

theorem replay_sample_is_visited_node:
  "run ev_rec (world_init ev_rec 1) es_rec = Some w_rec \<and>
   replay_node_ids (spider w_rec) = {|1|} \<and>
   node_attr (G (spider w_rec)) 2 ''visited'' = Inr (PyBool False) \<and>
   link_classifiers (spider w_rec) =
     [(''a'', \<lparr>coef = Some [10, 1]\<rparr>), (''b'', \<lparr>coef = Some [10, 0]\<rparr>)] \<and>
   step ev_rec w_rec (Response (r_child 2) [2] []) = Some w_rec2 \<and>
   replay_node_ids (spider w_rec2) = {|1, 2|} \<and>
   link_classifiers (spider w_rec2) =
     [(''a'', \<lparr>coef = Some [11, 11, 0, 0]\<rparr>), (''b'', \<lparr>coef = Some [11, 11, 1, 1]\<rparr>)]"
proof -
  have 1: "replay_node_ids (spider w_rec) = {|1|}" by code_simp
  have 2: "node_attr (G (spider w_rec)) 2 ''visited'' = Inr (PyBool False)" by code_simp
  have 3: "link_classifiers (spider w_rec) =
     [(''a'', \<lparr>coef = Some [10, 1]\<rparr>), (''b'', \<lparr>coef = Some [10, 0]\<rparr>)]" by code_simp
  have 4: "step ev_rec w_rec (Response (r_child 2) [2] []) = Some w_rec2" by code_simp
  have 5: "replay_node_ids (spider w_rec2) = {|1, 2|}" by code_simp
  have 6: "link_classifiers (spider w_rec2) =
     [(''a'', \<lparr>coef = Some [11, 11, 0, 0]\<rparr>), (''b'', \<lparr>coef = Some [11, 11, 1, 1]\<rparr>)]"
    by code_simp
  show ?thesis by (intro conjI) (rule run_es_rec 1 2 3 4 5 6)+
qed

theorem replay_sample_is_visited_node_witness:
  "step ev_rec w_rec (Response (r_child 2) [2] []) = Some w_rec2 \<and>
   map fst (link_classifiers (spider w_rec2)) = [''a'', ''b'']"
proof -
  note t = replay_sample_is_visited_node
  have s: "step ev_rec w_rec (Response (r_child 2) [2] []) = Some w_rec2"
    by (rule t [THEN conjunct2, THEN conjunct2, THEN conjunct2, THEN conjunct2, THEN conjunct1])
  have "link_classifiers (spider w_rec2) =
     [(''a'', \<lparr>coef = Some [11, 11, 0, 0]\<rparr>), (''b'', \<lparr>coef = Some [11, 11, 1, 1]\<rparr>)]"
    by (rule t [THEN conjunct2, THEN conjunct2, THEN conjunct2, THEN conjunct2, THEN conjunct2,
          THEN conjunct2])
  then have k: "map fst (link_classifiers (spider w_rec2)) = [''a'', ''b'']" by simp
  show ?thesis by (intro conjI) (rule s k)+
qed

text \<open>
  C5, on the code.  In the same world, \<open>parse\<close> of the response for node \<open>2\<close>, with
  \<open>replay_N = 1\<close> and one past id in the replay set.  When the random choice prefers
  the past id \<open>1\<close>, the classifiers are trained on the fresh example of node \<open>2\<close> (url
  length 11, labels \<open>a = False\<close>, \<open>b = True\<close>) followed by the past example of node \<open>1\<close> (url
  length 10, labels \<open>a = True\<close>, \<open>b = False\<close>).  When it prefers the id \<open>2\<close>, they are trained
  on the fresh example followed by the same example again: the batch is not the fresh
  example plus a past one.
\<close>

theorem training_batch_repeats_fresh_example:
  "reachable ev_rec 1 w_rec \<and>
   replay_N (spider w_rec) = 1 \<and>
   replay_node_ids (spider w_rec) = {|1|} \<and>
   parse ev_rec (spider w_rec) (r_child 2) [1] [] =
     Inr (sp_rec2 1, Some \<lparr>this_node_id = 2, gen_domain = ''d'', todo = []\<rparr>) \<and>
   link_classifiers (sp_rec2 1) =
     [(''a'', \<lparr>coef = Some [11, 10, 0, 1]\<rparr>), (''b'', \<lparr>coef = Some [11, 10, 1, 0]\<rparr>)] \<and>
   parse ev_rec (spider w_rec) (r_child 2) [2] [] =
     Inr (sp_rec2 2, Some \<lparr>this_node_id = 2, gen_domain = ''d'', todo = []\<rparr>) \<and>
   link_classifiers (sp_rec2 2) =
     [(''a'', \<lparr>coef = Some [11, 11, 0, 0]\<rparr>), (''b'', \<lparr>coef = Some [11, 11, 1, 1]\<rparr>)]"
proof -
  have 1: "replay_N (spider w_rec) = 1" by code_simp
  have 2: "replay_node_ids (spider w_rec) = {|1|}" by code_simp
  have 3: "parse ev_rec (spider w_rec) (r_child 2) [1] [] =
     Inr (sp_rec2 1, Some \<lparr>this_node_id = 2, gen_domain = ''d'', todo = []\<rparr>)" by code_simp
  have 4: "link_classifiers (sp_rec2 1) =
     [(''a'', \<lparr>coef = Some [11, 10, 0, 1]\<rparr>), (''b'', \<lparr>coef = Some [11, 10, 1, 0]\<rparr>)]"
    by code_simp
  have 5: "parse ev_rec (spider w_rec) (r_child 2) [2] [] =
     Inr (sp_rec2 2, Some \<lparr>this_node_id = 2, gen_domain = ''d'', todo = []\<rparr>)" by code_simp
  have 6: "link_classifiers (sp_rec2 2) =
     [(''a'', \<lparr>coef = Some [11, 11, 0, 0]\<rparr>), (''b'', \<lparr>coef = Some [11, 11, 1, 1]\<rparr>)]"
    by code_simp
  show ?thesis by (intro conjI) (rule reachable_w_rec 1 2 3 4 5 6)+
qed

theorem training_batch_repeats_fresh_example_witness:
  "parse ev_rec (spider w_rec) (r_child 2) [2] [] =
     Inr (sp_rec2 2, Some \<lparr>this_node_id = 2, gen_domain = ''d'', todo = []\<rparr>) \<and>
   map fst (link_classifiers (sp_rec2 2)) = [''a'', ''b'']"
proof -
  note t = training_batch_repeats_fresh_example
  have p: "parse ev_rec (spider w_rec) (r_child 2) [2] [] =
     Inr (sp_rec2 2, Some \<lparr>this_node_id = 2, gen_domain = ''d'', todo = []\<rparr>)"
    by (rule t [THEN conjunct2, THEN conjunct2, THEN conjunct2, THEN conjunct2, THEN conjunct2,
          THEN conjunct1])
  have "link_classifiers (sp_rec2 2) =
     [(''a'', \<lparr>coef = Some [11, 11, 0, 0]\<rparr>), (''b'', \<lparr>coef = Some [11, 11, 1, 1]\<rparr>)]"
    by (rule t [THEN conjunct2, THEN conjunct2, THEN conjunct2, THEN conjunct2, THEN conjunct2,
          THEN conjunct2])
  then have k: "map fst (link_classifiers (sp_rec2 2)) = [''a'', ''b'']" by simp
  show ?thesis by (intro conjI) (rule p k)+
qed

end
